theory Spec2Isabelle
  imports Main "HOL-Library.Word"
begin

unbundle bit_operations_syntax

section \<open>The byte source\<close>

text \<open>
  The decoder of \<^verbatim>\<open>protocol/decode.go\<close> reads from an \<^verbatim>\<open>io.Reader\<close>. The source is
  modelled as a finite byte stream with a cursor:
  \<^item> \<open>rdata\<close> are the bytes the source still holds, \<open>rpos\<close> counts the bytes consumed;
  \<^item> one call of \<^verbatim>\<open>Read\<close> delivers at most \<open>Suc (rchunk r)\<close> bytes (short reads);
  \<^item> once the data is exhausted every call fails, with \<^verbatim>\<open>io.EOF\<close> when \<open>rfail\<close> is
    \<open>None\<close> and with the I/O error \<open>rfail\<close> otherwise;
  \<^item> \<open>rdiscarder\<close> tells whether the source also has the method \<^verbatim>\<open>Discard(int) (int, error)\<close>
    of the interface \<^verbatim>\<open>discarder\<close> (as \<^verbatim>\<open>bufio.Reader\<close> has).
  A call of \<^verbatim>\<open>Read\<close> with a non-empty buffer returns at least one byte or an error, as
  the contract of \<^verbatim>\<open>io.Reader\<close> asks.
\<close>

type_synonym byte = "8 word"

datatype error = EOF | ErrUnexpectedEOF | ErrVarInt | ErrSource nat

record reader =
  rdata :: "byte list"
  rpos :: nat
  rchunk :: nat
  rfail :: "error option"
  rdiscarder :: bool

definition reader_fail :: "reader \<Rightarrow> error" where
  "reader_fail r = (case rfail r of None \<Rightarrow> EOF | Some e \<Rightarrow> e)"

text \<open>\<^verbatim>\<open>r.Read(b)\<close> with \<open>n = len(b)\<close>: the bytes read, the error, the source afterwards.\<close>

definition reader_Read :: "reader \<Rightarrow> nat \<Rightarrow> byte list \<times> error option \<times> reader" where
  "reader_Read r n =
     (if rdata r = [] then ([], Some (reader_fail r), r)
      else let k = min n (Suc (rchunk r)) in
        (take k (rdata r), None,
         r\<lparr>rdata := drop k (rdata r), rpos := rpos r + min k (length (rdata r))\<rparr>))"

text \<open>\<^verbatim>\<open>r.Discard(n)\<close>: the number of bytes skipped, the error when fewer than \<open>n\<close>.\<close>

definition reader_Discard :: "reader \<Rightarrow> nat \<Rightarrow> nat \<times> error option \<times> reader" where
  "reader_Discard r n =
     (let k = min n (length (rdata r)) in
        (k, if k < n then Some (reader_fail r) else None,
         r\<lparr>rdata := drop k (rdata r), rpos := rpos r + k\<rparr>))"

section \<open>The bounded frame reader\<close>

text \<open>
  \<^verbatim>\<open>type decoder struct { reader io.Reader; remain int; buffer [8]byte; err error }\<close>.
  \<open>remain\<close> is a Go \<^verbatim>\<open>int\<close> that starts at the frame length and is only ever decreased
  by a count of bytes bounded by it, so it is a \<open>nat\<close> here. \<open>buffer\<close> is the scratch
  slice the fixed-width reads fill; the model returns the bytes read instead.
  \<open>err = None\<close> is Go's \<^verbatim>\<open>nil\<close>.
\<close>

record decoder =
  reader :: reader
  remain :: nat
  err :: "error option"

text \<open>\<^verbatim>\<open>func (d *decoder) Read(b []byte) (int, error)\<close>, with \<open>n = len(b)\<close>.\<close>

definition Read :: "decoder \<Rightarrow> nat \<Rightarrow> byte list \<times> error option \<times> decoder" where
  "Read d n =
     (if err d \<noteq> None then ([], err d, d)
      else if remain d = 0 then ([], Some EOF, d)
      else let n' = (if n > remain d then remain d else n) in
        case reader_Read (reader d) n' of
          (bs, e, r') \<Rightarrow> (bs, e, d\<lparr>reader := r', remain := remain d - length bs\<rparr>))"

lemma Read_progress:
  "Read d n = (bs, None, d') \<Longrightarrow> 0 < n \<Longrightarrow> bs \<noteq> [] \<and> length bs \<le> n \<and> length bs \<le> remain d"
  by (auto simp: Read_def reader_Read_def Let_def split: if_splits)

lemma Read_remain:
  "Read d n = (bs, e, d') \<Longrightarrow> remain d' = remain d - length bs \<and> err d' = err d"
  by (auto simp: Read_def reader_Read_def Let_def split: if_splits)

text \<open>
  \<^verbatim>\<open>io.ReadFull(d, b)\<close> of the Go library, \<open>m = len(b)\<close>: the loop of \<^verbatim>\<open>io.ReadAtLeast\<close>
  \<^verbatim>\<open>for n < min && err == nil { nn, err = r.Read(buf[n:]); n += nn }\<close>
  with the bytes read so far in \<open>acc\<close>, then the translation of the error.
\<close>

function ReadFull_loop :: "decoder \<Rightarrow> nat \<Rightarrow> byte list \<Rightarrow> byte list \<times> error option \<times> decoder" where
  "ReadFull_loop d m acc =
     (if length acc < m then
        (case Read d (m - length acc) of
           (bs, e, d') \<Rightarrow>
             if e = None then ReadFull_loop d' m (acc @ bs) else (acc @ bs, e, d'))
      else (acc, None, d))"
  by pat_completeness auto
termination
  apply (relation "measure (\<lambda>(d, m, acc). m - length acc)")
   apply simp
  subgoal for d m acc bs y e d'
    using Read_progress [of d "m - length acc" bs d'] by (cases bs) auto
  done

declare ReadFull_loop.simps [simp del]

definition ReadFull :: "decoder \<Rightarrow> nat \<Rightarrow> byte list \<times> error option \<times> decoder" where
  "ReadFull d m =
     (case ReadFull_loop d m [] of
        (bs, e, d') \<Rightarrow>
          (bs,
           if length bs \<ge> m then None
           else if length bs > 0 \<and> e = Some EOF then Some ErrUnexpectedEOF
           else e,
           d'))"

text \<open>
  \<^verbatim>\<open>io.Copy(ioutil.Discard, d)\<close> of the Go library: \<^verbatim>\<open>ioutil.Discard\<close> reads from \<open>d\<close>
  with a buffer of 8192 bytes until \<^verbatim>\<open>Read\<close> fails, and \<^verbatim>\<open>io.EOF\<close> is not an error of
  the copy. The byte count is dropped by the caller.
\<close>

function Copy_Discard :: "decoder \<Rightarrow> error option \<times> decoder" where
  "Copy_Discard d =
     (case Read d 8192 of
        (bs, e, d') \<Rightarrow>
          if e = None then Copy_Discard d' else (if e = Some EOF then None else e, d'))"
  by pat_completeness auto
termination
  apply (relation "measure remain")
   apply simp
  subgoal for d bs y e d'
    using Read_progress [of d 8192 bs d'] Read_remain [of d 8192 bs e d'] by (cases bs) auto
  done

declare Copy_Discard.simps [simp del]

lemma Copy_Discard_err: "err (snd (Copy_Discard d)) = err d"
proof (induction d rule: Copy_Discard.induct)
  case (1 d)
  obtain bs e d' where r: "Read d 8192 = (bs, e, d')" by (cases "Read d 8192") auto
  from Read_remain [OF r] have e: "err d' = err d" by simp
  show ?case
  proof (cases e)
    case None
    with 1 r have "err (snd (Copy_Discard d')) = err d'" by simp
    with r None e show ?thesis by (simp add: Copy_Discard.simps [of d])
  next
    case (Some a)
    with r e show ?thesis by (simp add: Copy_Discard.simps [of d])
  qed
qed

section \<open>Sticky error and discard\<close>

text \<open>
  \<^verbatim>\<open>discardAll\<close>, \<^verbatim>\<open>discard\<close> and \<^verbatim>\<open>setError\<close> call each other: \<^verbatim>\<open>setError\<close> records
  the first error and calls \<^verbatim>\<open>discardAll\<close>, \<^verbatim>\<open>discard\<close> ends with \<^verbatim>\<open>d.setError(err)\<close>.
  The recursion ends because the second \<^verbatim>\<open>setError\<close> finds the error recorded.
\<close>

function discardAll :: "decoder \<Rightarrow> decoder"
  and discard :: "decoder \<Rightarrow> nat \<Rightarrow> decoder"
  and setError :: "decoder \<Rightarrow> error option \<Rightarrow> decoder" where
  "discardAll d = discard d (remain d)"
| "discard d n =
     (let n' = (if n > remain d then remain d else n) in
      if rdiscarder (reader d) then
        (case reader_Discard (reader d) n' of
           (k, e, r') \<Rightarrow> setError (d\<lparr>reader := r', remain := remain d - k\<rparr>) e)
      else
        (case Copy_Discard d of (e, d') \<Rightarrow> setError d' e))"
| "setError d e = (if err d = None \<and> e \<noteq> None then discardAll (d\<lparr>err := e\<rparr>) else d)"
  by pat_completeness auto
termination
  apply (relation "measure (\<lambda>x. case x of
          Inl d \<Rightarrow> (if err d = None then 5 else 2)
        | Inr (Inl (d, n)) \<Rightarrow> (if err d = None then 4 else 1)
        | Inr (Inr (d, e)) \<Rightarrow> (if err d = None then 3 else 0))")
      apply simp
     apply simp
    apply simp
  subgoal for d n x e d'
    using Copy_Discard_err [of d] by (cases "Copy_Discard d") auto
  apply auto
  done

declare discardAll.simps [simp del] discard.simps [simp del] setError.simps [simp del]

section \<open>Primitive decoders\<close>

text \<open>\<^verbatim>\<open>func (d *decoder) read(n int) []byte\<close>: the bytes read, cut to what arrived.\<close>

definition read :: "decoder \<Rightarrow> nat \<Rightarrow> byte list \<times> decoder" where
  "read d n = (case ReadFull d n of (b, e, d') \<Rightarrow> (b, setError d' e))"

text \<open>
  \<^verbatim>\<open>func (d *decoder) readFull(b []byte) bool\<close> with \<open>n = len(b)\<close>; the second
  component is what the call left in \<open>b\<close>.
\<close>

definition readFull :: "decoder \<Rightarrow> nat \<Rightarrow> bool \<times> byte list \<times> decoder" where
  "readFull d n = (case ReadFull d n of (b, e, d') \<Rightarrow> (length b = n, b, setError d' e))"

text \<open>
  Modelled from the spec: the package functions \<^verbatim>\<open>readInt16\<close>, \<^verbatim>\<open>readInt32\<close> and
  \<^verbatim>\<open>readInt64\<close> on a byte slice are not in \<^verbatim>\<open>decode.go\<close>; the spec says "big-endian
  fixed-width reads of 1/2/4/8 bytes".
\<close>

definition bigEndian :: "byte list \<Rightarrow> 'a::len word" where
  "bigEndian b = foldl (\<lambda>acc x. push_bit 8 acc OR ucast x) 0 b"

text \<open>
  Modelled from the spec: \<^verbatim>\<open>bytesToString\<close> is not in \<^verbatim>\<open>decode.go\<close>; a Go string
  is its bytes.
\<close>

definition bytesToString :: "byte list \<Rightarrow> byte list" where
  "bytesToString b = b"

definition readByte :: "decoder \<Rightarrow> byte \<times> decoder" where
  "readByte d = (case readFull d 1 of (ok, b, d') \<Rightarrow> (if ok then b ! 0 else 0, d'))"

definition readBool :: "decoder \<Rightarrow> bool \<times> decoder" where
  "readBool d = (case readByte d of (b, d') \<Rightarrow> (b \<noteq> 0, d'))"

definition readInt8 :: "decoder \<Rightarrow> 8 word \<times> decoder" where
  "readInt8 d = (case readByte d of (b, d') \<Rightarrow> (b, d'))"

definition readInt16 :: "decoder \<Rightarrow> 16 word \<times> decoder" where
  "readInt16 d = (case readFull d 2 of (ok, b, d') \<Rightarrow> (if ok then bigEndian b else 0, d'))"

definition readInt32 :: "decoder \<Rightarrow> 32 word \<times> decoder" where
  "readInt32 d = (case readFull d 4 of (ok, b, d') \<Rightarrow> (if ok then bigEndian b else 0, d'))"

definition readInt64 :: "decoder \<Rightarrow> 64 word \<times> decoder" where
  "readInt64 d = (case readFull d 8 of (ok, b, d') \<Rightarrow> (if ok then bigEndian b else 0, d'))"

text \<open>
  \<^verbatim>\<open>readVarInt\<close>: the loop \<^verbatim>\<open>for n > 0\<close> with the accumulator \<open>x\<close> (a \<^verbatim>\<open>uint64\<close>) and
  the shift \<open>s\<close>. Go's \<^verbatim>\<open><<\<close> by 64 or more gives 0, as \<open>push_bit\<close> on a word does.
  The result \<^verbatim>\<open>int64(x>>1) ^ -(int64(x) & 1)\<close> is \<open>unzigzag x\<close>.
\<close>

definition unzigzag :: "64 word \<Rightarrow> 64 word" where
  "unzigzag x = drop_bit 1 x XOR - (x AND 1)"

fun readVarInt_loop :: "nat \<Rightarrow> 64 word \<Rightarrow> nat \<Rightarrow> decoder \<Rightarrow> 64 word \<times> decoder" where
  "readVarInt_loop 0 x s d = (0, setError d (Some ErrVarInt))"
| "readVarInt_loop (Suc n) x s d =
     (case readByte d of
        (b, d') \<Rightarrow>
          if b AND 0x80 = 0 then (unzigzag (x OR push_bit s (ucast b)), d')
          else readVarInt_loop n (x OR push_bit s (ucast (b AND 0x7f))) (s + 7) d')"

definition readVarInt :: "decoder \<Rightarrow> 64 word \<times> decoder" where
  "readVarInt d = readVarInt_loop (if 11 > remain d then remain d else 11) 0 0 d"

section \<open>Variable-length decoders\<close>

text \<open>
  A string is its byte list. A byte slice is \<open>None\<close> for Go's \<^verbatim>\<open>nil\<close> and \<open>Some b\<close>
  for an allocated slice, so that \<open>Some []\<close> is the empty slice that is not \<^verbatim>\<open>nil\<close>.
  \<^verbatim>\<open>int(n)\<close> of a non-negative length is \<open>nat (sint n)\<close>. The streaming variants
  (\<^verbatim>\<open>writeTo\<close>, \<^verbatim>\<open>readBytesTo\<close>, \<^verbatim>\<open>readCompactBytesTo\<close>) copy to an \<^verbatim>\<open>io.Writer\<close>, are
  in no compiled plan, and are left out.
\<close>

definition readString :: "decoder \<Rightarrow> byte list \<times> decoder" where
  "readString d =
     (case readInt16 d of
        (n, d') \<Rightarrow>
          if sint n < 0 then ([], d')
          else (case read d' (nat (sint n)) of (b, d'') \<Rightarrow> (bytesToString b, d'')))"

definition readCompactString :: "decoder \<Rightarrow> byte list \<times> decoder" where
  "readCompactString d =
     (case readVarInt d of
        (n, d') \<Rightarrow>
          if sint n < 0 then ([], d')
          else (case read d' (nat (sint n)) of (b, d'') \<Rightarrow> (bytesToString b, d'')))"

definition readBytes :: "decoder \<Rightarrow> byte list option \<times> decoder" where
  "readBytes d =
     (case readInt32 d of
        (n, d') \<Rightarrow>
          if sint n < 0 then (None, d')
          else (case read d' (nat (sint n)) of (b, d'') \<Rightarrow> (Some b, d'')))"

definition readCompactBytes :: "decoder \<Rightarrow> byte list option \<times> decoder" where
  "readCompactBytes d =
     (case readVarInt d of
        (n, d') \<Rightarrow>
          if sint n < 0 then (None, d')
          else (case read d' (nat (sint n)) of (b, d'') \<Rightarrow> (Some b, d'')))"

section \<open>Values, types and tags\<close>

text \<open>
  Modelled from the spec: the write-handle \<^verbatim>\<open>value\<close> with its setters, \<^verbatim>\<open>array\<close>,
  \<^verbatim>\<open>makeArray\<close>, \<^verbatim>\<open>structTag\<close> and the iteration helpers \<^verbatim>\<open>forEachStructField\<close> and
  \<^verbatim>\<open>forEachStructTag\<close> are declared outside \<^verbatim>\<open>decode.go\<close>. A handle is modelled by
  the content of its destination: a decode operation takes the content and gives the new
  content back. A record type descriptor is the list of its fields in declared order, each
  with its type and its tag intervals; \<open>index\<close> is the position of the field.
  \<open>TReaderFrom rf t\<close> is a type with the structure \<open>t\<close> whose pointer implements
  \<^verbatim>\<open>io.ReaderFrom\<close> by \<open>rf\<close>; \<open>TOther\<close> stands for every kind \<^verbatim>\<open>decodeFuncOf\<close> has no case for.
\<close>

datatype val =
  VBool bool | VInt8 "8 word" | VInt16 "16 word" | VInt32 "32 word" | VInt64 "64 word"
  | VString "byte list" | VBytes "byte list option" | VArray "val list" | VStruct "val list"
  | VOther

record structTag =
  MinVersion :: "16 word"
  MaxVersion :: "16 word"
  Compact :: bool

type_synonym readFrom = "reader \<Rightarrow> val \<Rightarrow> reader \<times> val \<times> error option"

datatype rtype =
  TBool | TInt8 | TInt16 | TInt32 | TInt64 | TString | TUint8
  | TStruct "(rtype \<times> structTag list) list" | TSlice rtype
  | TReaderFrom readFrom rtype | TOther

fun kindUint8 :: "rtype \<Rightarrow> bool" where
  "kindUint8 TUint8 = True"
| "kindUint8 (TReaderFrom rf t) = kindUint8 t"
| "kindUint8 t = False"

fun zero :: "rtype \<Rightarrow> val" where
  "zero TBool = VBool False"
| "zero TInt8 = VInt8 0"
| "zero TInt16 = VInt16 0"
| "zero TInt32 = VInt32 0"
| "zero TInt64 = VInt64 0"
| "zero TString = VString []"
| "zero TUint8 = VOther"
| "zero (TStruct fs) = VStruct (map (\<lambda>f. zero (fst f)) fs)"
| "zero (TSlice t) = (if kindUint8 t then VBytes None else VArray [])"
| "zero (TReaderFrom rf t) = zero t"
| "zero TOther = VOther"

definition setBool :: "val \<Rightarrow> bool \<Rightarrow> val" where "setBool v b = VBool b"
definition setInt8 :: "val \<Rightarrow> 8 word \<Rightarrow> val" where "setInt8 v i = VInt8 i"
definition setInt16 :: "val \<Rightarrow> 16 word \<Rightarrow> val" where "setInt16 v i = VInt16 i"
definition setInt32 :: "val \<Rightarrow> 32 word \<Rightarrow> val" where "setInt32 v i = VInt32 i"
definition setInt64 :: "val \<Rightarrow> 64 word \<Rightarrow> val" where "setInt64 v i = VInt64 i"
definition setString :: "val \<Rightarrow> byte list \<Rightarrow> val" where "setString v s = VString s"
definition setBytes :: "val \<Rightarrow> byte list option \<Rightarrow> val" where "setBytes v b = VBytes b"
definition setArray :: "val \<Rightarrow> val list \<Rightarrow> val" where "setArray v a = VArray a"

definition makeArray :: "rtype \<Rightarrow> nat \<Rightarrow> val list" where
  "makeArray t n = replicate n (zero t)"

text \<open>
  \<^verbatim>\<open>v.fieldByIndex(i)\<close> is the handle of field \<open>i\<close>: \<open>fieldByIndex\<close> reads its content
  and \<open>setFieldByIndex\<close> stores what the decode operation wrote through it.
\<close>

definition fieldByIndex :: "val \<Rightarrow> nat \<Rightarrow> val" where
  "fieldByIndex v i = (case v of VStruct vs \<Rightarrow> (if i < length vs then vs ! i else VOther) | _ \<Rightarrow> VOther)"

definition setFieldByIndex :: "val \<Rightarrow> nat \<Rightarrow> val \<Rightarrow> val" where
  "setFieldByIndex v i x = (case v of VStruct vs \<Rightarrow> VStruct (vs[i := x]) | _ \<Rightarrow> v)"

section \<open>Decode operations\<close>

type_synonym decodeFunc = "decoder \<Rightarrow> val \<Rightarrow> decoder \<times> val"

definition decodeBool :: decodeFunc where
  "decodeBool d v = (case readBool d of (x, d') \<Rightarrow> (d', setBool v x))"

definition decodeInt8 :: decodeFunc where
  "decodeInt8 d v = (case readInt8 d of (x, d') \<Rightarrow> (d', setInt8 v x))"

definition decodeInt16 :: decodeFunc where
  "decodeInt16 d v = (case readInt16 d of (x, d') \<Rightarrow> (d', setInt16 v x))"

definition decodeInt32 :: decodeFunc where
  "decodeInt32 d v = (case readInt32 d of (x, d') \<Rightarrow> (d', setInt32 v x))"

definition decodeInt64 :: decodeFunc where
  "decodeInt64 d v = (case readInt64 d of (x, d') \<Rightarrow> (d', setInt64 v x))"

definition decodeString :: decodeFunc where
  "decodeString d v = (case readString d of (x, d') \<Rightarrow> (d', setString v x))"

definition decodeBytes :: decodeFunc where
  "decodeBytes d v = (case readBytes d of (x, d') \<Rightarrow> (d', setBytes v x))"

text \<open>The loop \<^verbatim>\<open>for i := 0; i < int(n) && d.remain > 0; i++\<close> of \<^verbatim>\<open>decodeArray\<close>.\<close>

function decodeArray_loop :: "decodeFunc \<Rightarrow> decoder \<Rightarrow> val list \<Rightarrow> nat \<Rightarrow> nat \<Rightarrow> decoder \<times> val list" where
  "decodeArray_loop decodeElem d a i n =
     (if i < n \<and> remain d > 0 then
        (case decodeElem d (a ! i) of
           (d', x) \<Rightarrow> decodeArray_loop decodeElem d' (a[i := x]) (Suc i) n)
      else (d, a))"
  by pat_completeness auto
termination
  by (relation "measure (\<lambda>(decodeElem, d, a, i, n). n - i)") auto

declare decodeArray_loop.simps [simp del]

definition decodeArray :: "decoder \<Rightarrow> val \<Rightarrow> rtype \<Rightarrow> decodeFunc \<Rightarrow> decoder \<times> val" where
  "decodeArray d v elemType decodeElem =
     (case readInt32 d of
        (n, d') \<Rightarrow>
          if sint n < 0 then (d', setArray v [])
          else
            (case decodeArray_loop decodeElem d' (makeArray elemType (nat (sint n))) 0 (nat (sint n)) of
               (d'', a) \<Rightarrow> (d'', setArray v a)))"

section \<open>The schema compiler\<close>

text \<open>
  \<^verbatim>\<open>readerDecodeFuncOf\<close>: the closure
  \<^verbatim>\<open>if d.err == nil { _, d.err = v.iface(rtype).(io.ReaderFrom).ReadFrom(d.reader) }\<close>.
\<close>

definition readerDecodeFuncOf :: "readFrom \<Rightarrow> decodeFunc" where
  "readerDecodeFuncOf rf d v =
     (if err d = None then
        (case rf (reader d) v of (r', v', e) \<Rightarrow> (d\<lparr>reader := r', err := e\<rparr>, v'))
      else (d, v))"

definition stringDecodeFuncOf :: "structTag \<Rightarrow> decodeFunc" where
  "stringDecodeFuncOf tag = decodeString"

definition bytesDecodeFuncOf :: "structTag \<Rightarrow> decodeFunc" where
  "bytesDecodeFuncOf tag = decodeBytes"

text \<open>The local type \<^verbatim>\<open>field\<close> of \<^verbatim>\<open>structDecodeFuncOf\<close> and the closure it returns.\<close>

record field =
  decode :: decodeFunc
  index :: nat

fun structDecode :: "field list \<Rightarrow> decodeFunc" where
  "structDecode [] d v = (d, v)"
| "structDecode (f # fs) d v =
     (case decode f d (fieldByIndex v (index f)) of
        (d', x) \<Rightarrow> structDecode fs d' (setFieldByIndex v (index f) x))"

text \<open>
  \<^verbatim>\<open>decodeFuncOf\<close> and the compilers it calls, \<^verbatim>\<open>structDecodeFuncOf\<close> and
  \<^verbatim>\<open>arrayDecodeFuncOf\<close>. \<open>None\<close> is the panic \<^verbatim>\<open>"unsupported type"\<close>, and what
  \<^verbatim>\<open>reflect\<close> does when \<^verbatim>\<open>structDecodeFuncOf\<close> gets a type that is no struct or
  \<^verbatim>\<open>arrayDecodeFuncOf\<close> one that is no slice. \<open>fields_size\<close> is the measure of the
  termination proof.
\<close>

text \<open>
  Modelled from the spec: \<^verbatim>\<open>forEachStructField\<close> and \<^verbatim>\<open>forEachStructTag\<close> are not in
  \<^verbatim>\<open>decode.go\<close>. They are the two iterations of \<^verbatim>\<open>structDecodeFuncOf\<close> with its callbacks
  in place: the first visits the fields in declared order, the second the tags of one field
  in order until the callback returns \<^verbatim>\<open>false\<close>, which it does at the first tag whose
  interval holds the version; \<open>flds\<close> is the slice \<^verbatim>\<open>fields\<close> the callback appends to.
\<close>

fun fields_size :: "(rtype \<times> structTag list) list \<Rightarrow> nat" where
  "fields_size [] = 0"
| "fields_size (f # fs) = Suc (size (fst f)) + fields_size fs"

lemma fields_size_le: "fields_size fs \<le> size_list (size_prod size (\<lambda>x. 0)) fs"
  by (induction fs) auto

function decodeFuncOf :: "rtype \<Rightarrow> 16 word \<Rightarrow> structTag \<Rightarrow> decodeFunc option"
  and structDecodeFuncOf :: "rtype \<Rightarrow> 16 word \<Rightarrow> decodeFunc option"
  and arrayDecodeFuncOf :: "rtype \<Rightarrow> 16 word \<Rightarrow> structTag \<Rightarrow> decodeFunc option"
  and forEachStructField :: "(rtype \<times> structTag list) list \<Rightarrow> nat \<Rightarrow> 16 word \<Rightarrow> field list \<Rightarrow> field list option"
  and forEachStructTag :: "rtype \<Rightarrow> nat \<Rightarrow> structTag list \<Rightarrow> 16 word \<Rightarrow> field list \<Rightarrow> field list option" where
  "decodeFuncOf (TReaderFrom rf t) version tag = Some (readerDecodeFuncOf rf)"
| "decodeFuncOf TBool version tag = Some decodeBool"
| "decodeFuncOf TInt8 version tag = Some decodeInt8"
| "decodeFuncOf TInt16 version tag = Some decodeInt16"
| "decodeFuncOf TInt32 version tag = Some decodeInt32"
| "decodeFuncOf TInt64 version tag = Some decodeInt64"
| "decodeFuncOf TString version tag = Some (stringDecodeFuncOf tag)"
| "decodeFuncOf (TStruct fs) version tag = structDecodeFuncOf (TStruct fs) version"
| "decodeFuncOf (TSlice t) version tag =
     (if kindUint8 t then Some (bytesDecodeFuncOf tag)
      else arrayDecodeFuncOf (TSlice t) version tag)"
| "decodeFuncOf TUint8 version tag = None"
| "decodeFuncOf TOther version tag = None"
| "structDecodeFuncOf typ version =
     (case typ of
        TStruct fs \<Rightarrow>
          (case forEachStructField fs 0 version [] of
             None \<Rightarrow> None
           | Some flds \<Rightarrow> Some (structDecode flds))
      | _ \<Rightarrow> None)"
| "arrayDecodeFuncOf typ version tag =
     (case typ of
        TSlice elemType \<Rightarrow>
          (case decodeFuncOf elemType version tag of
             None \<Rightarrow> None
           | Some elemFunc \<Rightarrow> Some (\<lambda>d v. decodeArray d v elemType elemFunc))
      | _ \<Rightarrow> None)"
| "forEachStructField [] i version flds = Some flds"
| "forEachStructField ((ftyp, tags) # fs) i version flds =
     (case forEachStructTag ftyp i tags version flds of
        None \<Rightarrow> None
      | Some flds' \<Rightarrow> forEachStructField fs (Suc i) version flds')"
| "forEachStructTag ftyp i [] version flds = Some flds"
| "forEachStructTag ftyp i (tag # tags) version flds =
     (if sint (MinVersion tag) \<le> sint version \<and> sint version \<le> sint (MaxVersion tag) then
        (case decodeFuncOf ftyp version tag of
           None \<Rightarrow> None
         | Some f \<Rightarrow> Some (flds @ [\<lparr>decode = f, index = i\<rparr>]))
      else forEachStructTag ftyp i tags version flds)"
  by pat_completeness auto
termination
  apply (relation "inv_image (less_than <*lex*> less_than) (\<lambda>x. case x of
      Inl (Inl (t, version, tag)) \<Rightarrow> (size t, 1)
    | Inl (Inr (t, version)) \<Rightarrow> (size t, 0)
    | Inr (Inl (t, version, tag)) \<Rightarrow> (size t, 0)
    | Inr (Inr (Inl (fs, i, version, flds))) \<Rightarrow> (fields_size fs, 0)
    | Inr (Inr (Inr (ftyp, i, tags, version, flds))) \<Rightarrow> (size ftyp, 2 + length tags))")
  apply (auto simp: less_Suc_eq_le fields_size_le)
  done

declare structDecodeFuncOf.simps [simp del] arrayDecodeFuncOf.simps [simp del]

section \<open>Specification vocabulary\<close>

text \<open>
  \<open>advance d k\<close> is the decoder after \<open>k\<close> bytes of the frame were taken from the
  source: the cursor moved by \<open>k\<close> and the budget went down by \<open>k\<close>. \<open>avail d\<close> is
  the number of bytes a read can still get: the smaller of the budget and of what the
  source holds. \<open>stop_error d\<close> is what \<^verbatim>\<open>Read\<close> reports when nothing is available, and
  \<open>trunc_error d\<close> what \<^verbatim>\<open>io.ReadFull\<close> reports when it comes up short.
\<close>

definition advance :: "decoder \<Rightarrow> nat \<Rightarrow> decoder" where
  "advance d k = d\<lparr>reader := (reader d)\<lparr>rdata := drop k (rdata (reader d)), rpos := rpos (reader d) + k\<rparr>,
                   remain := remain d - k\<rparr>"

definition avail :: "decoder \<Rightarrow> nat" where
  "avail d = min (remain d) (length (rdata (reader d)))"

definition stop_error :: "decoder \<Rightarrow> error" where
  "stop_error d = (if remain d \<le> length (rdata (reader d)) then EOF else reader_fail (reader d))"

definition trunc_error :: "decoder \<Rightarrow> error" where
  "trunc_error d =
     (let s = stop_error (advance d (avail d)) in
      if 0 < avail d \<and> s = EOF then ErrUnexpectedEOF else s)"

text \<open>\<open>noop f\<close>: the decode operation \<open>f\<close> leaves a decoder with a recorded error as it is.\<close>

definition noop :: "decodeFunc \<Rightarrow> bool" where
  "noop f = (\<forall>d v. err d \<noteq> None \<longrightarrow> fst (f d v) = d)"

text \<open>
  \<open>plain t\<close>: no part of the type \<open>t\<close> decodes itself. \<open>steps d d'\<close>: from \<open>d\<close> to \<open>d'\<close>
  the source's cursor moved by exactly the bytes taken off the budget, at most \<open>avail d\<close>
  of them, and either the error is unchanged or a first error was recorded, one of
  \<^verbatim>\<open>io.EOF\<close>, \<^verbatim>\<open>io.ErrUnexpectedEOF\<close> and the source's own, with nothing left available.
  \<open>sound f\<close>: every run of the decode operation \<open>f\<close> is such a step.
\<close>

fun plain :: "rtype \<Rightarrow> bool" where
  "plain (TReaderFrom rf t) = False"
| "plain (TStruct fs) = (\<forall>f \<in> set fs. plain (fst f))"
| "plain (TSlice t) = plain t"
| "plain t = True"

definition steps :: "decoder \<Rightarrow> decoder \<Rightarrow> bool" where
  "steps d d' =
     ((\<exists>k\<le>avail d. reader d' = reader (advance d k) \<and> remain d' = remain d - k)
      \<and> (err d' = err d \<or>
           (err d = None \<and> avail d' = 0
            \<and> err d' \<in> {Some EOF, Some ErrUnexpectedEOF, Some (reader_fail (reader d))})))"

definition sound :: "decodeFunc \<Rightarrow> bool" where
  "sound f = (\<forall>d v. steps d (fst (f d v)))"

text \<open>
  \<open>matches version tag\<close> is the test \<^verbatim>\<open>tag.MinVersion <= version && version <= tag.MaxVersion\<close>
  on \<^verbatim>\<open>int16\<close>; \<open>planned version (j, f)\<close>: the field \<open>f\<close> has a tag that matches.
\<close>

definition matches :: "16 word \<Rightarrow> structTag \<Rightarrow> bool" where
  "matches version tag = (sint (MinVersion tag) \<le> sint version \<and> sint version \<le> sint (MaxVersion tag))"

definition planned :: "16 word \<Rightarrow> nat \<times> rtype \<times> structTag list \<Rightarrow> bool" where
  "planned version jf = (\<exists>tag\<in>set (snd (snd jf)). matches version tag)"

text \<open>
  The array decoder in the words of the spec: \<open>decodeElems f z d m\<close> decodes \<open>m\<close>
  elements one at a time in order with the element operation \<open>f\<close>, each starting from the
  default \<open>z\<close>, and stops as soon as the budget is zero, leaving the elements that
  remain at \<open>z\<close> and the decoder as it is.
\<close>

fun decodeElems :: "decodeFunc \<Rightarrow> val \<Rightarrow> decoder \<Rightarrow> nat \<Rightarrow> decoder \<times> val list" where
  "decodeElems f z d 0 = (d, [])"
| "decodeElems f z d (Suc m) =
     (if remain d = 0 then (d, replicate (Suc m) z)
      else (case f d z of
              (d', x) \<Rightarrow> (case decodeElems f z d' m of (d'', xs) \<Rightarrow> (d'', x # xs))))"

section \<open>The varint encoder\<close>

text \<open>
  Modelled from the spec: the encoder (\<^verbatim>\<open>writeVarInt\<close> of the write path) is not in
  \<^verbatim>\<open>decode.go\<close>. The spec gives the format: the zigzag transform maps a signed 64-bit value to
  an unsigned one with small magnitudes first, and the unsigned value is written in groups
  of 7 bits, least significant group first, the top bit of a byte telling that more bytes
  follow.
\<close>

definition zigzag :: "64 word \<Rightarrow> 64 word" where
  "zigzag v = push_bit 1 v XOR signed_drop_bit 63 v"

function varint :: "64 word \<Rightarrow> byte list" where
  "varint u = (if u < 0x80 then [ucast u] else (ucast u OR 0x80) # varint (drop_bit 7 u))"
  by pat_completeness auto
termination
proof (relation "measure unat")
  show "wf (measure (unat :: 64 word \<Rightarrow> nat))" by simp
next
  fix u :: "64 word"
  assume "\<not> u < 0x80"
  then have "128 \<le> unat u" by (simp add: word_less_nat_alt not_less)
  then have "unat u div 2 ^ 7 < unat u" by (intro div_less_dividend) simp_all
  then show "(drop_bit 7 u, u) \<in> measure unat"
    by (simp add: drop_bit_eq_div unat_div)
qed

definition writeVarInt :: "64 word \<Rightarrow> byte list" where
  "writeVarInt v = varint (zigzag v)"

section \<open>Example sources and decoders\<close>

text \<open>
  The frame of the spec's end-to-end example, \<^verbatim>\<open>00 00 00 2A 00 02 'o' 'k'\<close>, in a source
  with bulk skip that delivers at most three bytes per read; a decoder at the start of the
  frame, and one on which an error was recorded while the whole budget is left.
\<close>

definition src_bulk :: reader where
  "src_bulk = \<lparr>rdata = [0, 0, 0, 0x2A, 0, 2, 0x6F, 0x6B], rpos = 0, rchunk = 2, rfail = None, rdiscarder = True\<rparr>"

definition dec_fresh :: decoder where
  "dec_fresh = \<lparr>reader = src_bulk, remain = 8, err = None\<rparr>"

definition dec_failed :: decoder where
  "dec_failed = \<lparr>reader = src_bulk, remain = 8, err = Some ErrVarInt\<rparr>"

text \<open>\<open>dec_of bs L bulk\<close>: a decoder at the start of a frame of budget \<open>L\<close> over the bytes \<open>bs\<close>.\<close>

definition dec_of :: "byte list \<Rightarrow> nat \<Rightarrow> bool \<Rightarrow> decoder" where
  "dec_of bs L bulk =
     \<lparr>reader = \<lparr>rdata = bs, rpos = 0, rchunk = 2, rfail = None, rdiscarder = bulk\<rparr>, remain = L, err = None\<rparr>"

text \<open>
  The record of the spec's end-to-end example, \<^verbatim>\<open>{id: int32, name: string}\<close>, both fields
  tagged for the versions 0 to 9, the plan compiled for it, and its frame.
\<close>

definition tag_all :: structTag where
  "tag_all = \<lparr>MinVersion = 0, MaxVersion = 9, Compact = False\<rparr>"

definition rec_type :: rtype where
  "rec_type = TStruct [(TInt32, [tag_all]), (TString, [tag_all])]"

definition rec_plan :: decodeFunc where
  "rec_plan = structDecode [\<lparr>decode = decodeInt32, index = 0\<rparr>, \<lparr>decode = stringDecodeFuncOf tag_all, index = 1\<rparr>]"

definition frame :: "byte list" where
  "frame = [0, 0, 0, 0x2A, 0, 2, 0x6F, 0x6B]"

text \<open>A self-decoder that reads nothing and fails.\<close>

definition rf_fail :: readFrom where
  "rf_fail r v = (r, v, Some (ErrSource 1))"

text \<open>
  A tag with the compact hint, and a record whose second field exists from version 3 and
  whose third field has two intervals, with the plan compiled for it at version 1.
\<close>

definition tag_compact :: structTag where
  "tag_compact = \<lparr>MinVersion = 0, MaxVersion = 9, Compact = True\<rparr>"

definition tag_old :: structTag where
  "tag_old = \<lparr>MinVersion = 0, MaxVersion = 2, Compact = False\<rparr>"

definition tag_new :: structTag where
  "tag_new = \<lparr>MinVersion = 3, MaxVersion = 9, Compact = True\<rparr>"

definition ver_fields :: "(rtype \<times> structTag list) list" where
  "ver_fields = [(TInt32, [tag_all]), (TString, [tag_new]), (TBool, [tag_new, tag_old])]"

definition ver_plan :: "field list" where
  "ver_plan = [\<lparr>decode = decodeInt32, index = 0\<rparr>, \<lparr>decode = decodeBool, index = 2\<rparr>]"

section \<open>What the readers compute\<close>

lemma dec_of_simps [simp]:
  "err (dec_of bs L bulk) = None" "remain (dec_of bs L bulk) = L"
  "rdata (reader (dec_of bs L bulk)) = bs" "rpos (reader (dec_of bs L bulk)) = 0"
  "rfail (reader (dec_of bs L bulk)) = None" "rdiscarder (reader (dec_of bs L bulk)) = bulk"
  "avail (dec_of bs L bulk) = min L (length bs)"
  by (simp_all add: dec_of_def avail_def)

lemma advance_0 [simp]: "advance d 0 = d"
  by (simp add: advance_def)

lemma advance_advance: "advance (advance d j) k = advance d (j + k)"
  by (simp add: advance_def add.commute)

lemma advance_fields [simp]:
  "err (advance d k) = err d" "remain (advance d k) = remain d - k"
  "rdata (reader (advance d k)) = drop k (rdata (reader d))"
  "rpos (reader (advance d k)) = rpos (reader d) + k"
  "rchunk (reader (advance d k)) = rchunk (reader d)"
  "rfail (reader (advance d k)) = rfail (reader d)"
  "rdiscarder (reader (advance d k)) = rdiscarder (reader d)"
  by (simp_all add: advance_def)

lemma reader_fail_advance [simp]: "reader_fail (reader (advance d k)) = reader_fail (reader d)"
  by (simp add: reader_fail_def)

lemma avail_advance: "k \<le> avail d \<Longrightarrow> avail (advance d k) = avail d - k"
  by (auto simp: avail_def)

lemma Read_err: "err d \<noteq> None \<Longrightarrow> Read d n = ([], err d, d)"
  by (simp add: Read_def)

lemma Read_ok:
  assumes "err d = None" "0 < avail d"
  shows "Read d n = (let k = min (min n (Suc (rchunk (reader d)))) (avail d) in
           (take k (rdata (reader d)), None, advance d k))"
  using assms
  by (auto simp: Read_def reader_Read_def Let_def avail_def advance_def min_def)

lemma Read_stop:
  assumes "err d = None" "avail d = 0"
  shows "Read d n = ([], Some (stop_error d), d)"
  using assms
  by (auto simp: Read_def reader_Read_def Let_def avail_def stop_error_def min_def split: if_splits)

lemma ReadFull_loop_err:
  "err d \<noteq> None \<Longrightarrow> ReadFull_loop d m acc = (acc, if length acc < m then err d else None, d)"
  by (subst ReadFull_loop.simps) (auto simp: Read_err)

lemma ReadFull_loop_spec:
  "err d = None \<Longrightarrow>
   ReadFull_loop d m acc =
     (let k = min (m - length acc) (avail d) in
        (acc @ take k (rdata (reader d)),
         if k = m - length acc then None else Some (stop_error (advance d k)),
         advance d k))"
proof (induction d m acc rule: ReadFull_loop.induct)
  case (1 d m acc)
  show ?case
  proof (cases "length acc < m")
    case False
    then show ?thesis by (simp add: ReadFull_loop.simps [of d m acc])
  next
    case lt: True
    show ?thesis
    proof (cases "avail d = 0")
      case True
      with lt 1(2) show ?thesis
        by (simp add: ReadFull_loop.simps [of d m acc] Read_stop)
    next
      case False
      define j where "j = min (min (m - length acc) (Suc (rchunk (reader d)))) (avail d)"
      have r: "Read d (m - length acc) = (take j (rdata (reader d)), None, advance d j)"
        using Read_ok [of d "m - length acc"] 1(2) False by (simp add: j_def Let_def)
      have j: "0 < j" "j \<le> m - length acc" "j \<le> avail d" "j \<le> length (rdata (reader d))"
        using False lt by (auto simp: j_def avail_def)
      have ih: "ReadFull_loop (advance d j) m (acc @ take j (rdata (reader d))) =
         (let k = min (m - length (acc @ take j (rdata (reader d)))) (avail (advance d j)) in
        ((acc @ take j (rdata (reader d))) @ take k (rdata (reader (advance d j))),
         if k = m - length (acc @ take j (rdata (reader d))) then None else Some (stop_error (advance (advance d j) k)),
         advance (advance d j) k))"
        using 1(1) [OF lt r [symmetric] refl refl] 1(2) by simp
      define k' where "k' = min (m - (length acc + j)) (avail d - j)"
      define K where "K = min (m - length acc) (avail d)"
      have mn: "j + k' = K"
        using j lt by (auto simp: min_def k'_def K_def)
      have c1: "(acc @ take j (rdata (reader d))) @ take k' (drop j (rdata (reader d))) = acc @ take K (rdata (reader d))"
        unfolding mn [symmetric] by (simp add: take_add)
      have c2: "(k' = m - (length acc + j)) = (K = m - length acc)"
        using mn j lt by arith
      have c3: "advance (advance d j) k' = advance d K"
        using mn by (simp add: advance_advance)
      have s1: "ReadFull_loop d m acc = ReadFull_loop (advance d j) m (acc @ take j (rdata (reader d)))"
        using lt r by (simp add: ReadFull_loop.simps [of d m acc])
      have s2: "ReadFull_loop (advance d j) m (acc @ take j (rdata (reader d))) =
         ((acc @ take j (rdata (reader d))) @ take k' (drop j (rdata (reader d))),
          if k' = m - (length acc + j) then None else Some (stop_error (advance (advance d j) k')),
          advance (advance d j) k')"
        using ih j(4) by (simp add: Let_def avail_advance [OF j(3)] k'_def)
      show ?thesis
        unfolding s1 s2 c1 c2 c3 by (simp add: Let_def K_def)
    qed
  qed
qed

lemma ReadFull_err: "err d \<noteq> None \<Longrightarrow> ReadFull d m = ([], if m = 0 then None else err d, d)"
  by (auto simp: ReadFull_def ReadFull_loop_err)

lemma ReadFull_ok:
  "err d = None \<Longrightarrow> m \<le> avail d \<Longrightarrow> ReadFull d m = (take m (rdata (reader d)), None, advance d m)"
  by (simp add: ReadFull_def ReadFull_loop_spec Let_def avail_def min_def)

lemma ReadFull_short:
  "err d = None \<Longrightarrow> avail d < m \<Longrightarrow>
   ReadFull d m = (take (avail d) (rdata (reader d)), Some (trunc_error d), advance d (avail d))"
  by (auto simp: ReadFull_def ReadFull_loop_spec Let_def avail_def min_def trunc_error_def)

lemma Copy_Discard_stop: "err d \<noteq> None \<Longrightarrow> Copy_Discard d = (if err d = Some EOF then None else err d, d)"
  by (subst Copy_Discard.simps) (auto simp: Read_err)

lemma Copy_Discard_spec:
  "err d = None \<Longrightarrow>
   Copy_Discard d =
     (if stop_error (advance d (avail d)) = EOF then None else Some (stop_error (advance d (avail d))),
      advance d (avail d))"
proof (induction d rule: Copy_Discard.induct)
  case (1 d)
  show ?case
  proof (cases "avail d = 0")
    case True
    with 1(2) show ?thesis
      by (subst Copy_Discard.simps) (simp add: Read_stop)
  next
    case False
    define j where "j = min (min 8192 (Suc (rchunk (reader d)))) (avail d)"
    have r: "Read d 8192 = (take j (rdata (reader d)), None, advance d j)"
      using Read_ok [of d 8192] 1(2) False by (simp add: j_def Let_def)
    have j: "j \<le> avail d" by (simp add: j_def)
    have ih: "Copy_Discard (advance d j) =
       (if stop_error (advance (advance d j) (avail (advance d j))) = EOF then None
        else Some (stop_error (advance (advance d j) (avail (advance d j)))),
        advance (advance d j) (avail (advance d j)))"
      using 1(1) [OF r [symmetric] refl refl] 1(2) by simp
    have a: "advance (advance d j) (avail (advance d j)) = advance d (avail d)"
      using j by (simp add: advance_advance avail_advance)
    have "Copy_Discard d = Copy_Discard (advance d j)"
      using r by (subst Copy_Discard.simps) simp
    then show ?thesis unfolding ih a by simp
  qed
qed

lemma setError_noop: "err d \<noteq> None \<or> e = None \<Longrightarrow> setError d e = d"
  by (subst setError.simps) auto

lemma setError_None [simp]: "setError d None = d"
  by (simp add: setError_noop)

lemma discard_err:
  "err d \<noteq> None \<Longrightarrow>
   discard d n = (if rdiscarder (reader d) then advance d (min n (avail d)) else d)"
  apply (subst discard.simps)
  apply (auto simp: Let_def reader_Discard_def Copy_Discard_stop setError_noop advance_def avail_def min_def)
  done

lemma setError_new:
  "err d = None \<Longrightarrow>
   setError d (Some e) =
     (if rdiscarder (reader d) then advance (d\<lparr>err := Some e\<rparr>) (avail d) else d\<lparr>err := Some e\<rparr>)"
  apply (subst setError.simps)
  apply (simp add: discardAll.simps discard_err)
  apply (simp add: avail_def advance_def)
  done

lemma setError_stuck:
  "err d = None \<Longrightarrow> avail d = 0 \<Longrightarrow> setError d (Some e) = d\<lparr>err := Some e\<rparr>"
  by (simp add: setError_new advance_def)

lemma readFull_err: "err d \<noteq> None \<Longrightarrow> 0 < n \<Longrightarrow> readFull d n = (False, [], d)"
  by (auto simp: readFull_def ReadFull_err setError_noop)

lemma readFull_ok:
  "err d = None \<Longrightarrow> n \<le> avail d \<Longrightarrow> readFull d n = (True, take n (rdata (reader d)), advance d n)"
  by (simp add: readFull_def ReadFull_ok avail_def)

lemma readFull_short:
  "err d = None \<Longrightarrow> avail d < n \<Longrightarrow>
   readFull d n = (False, take (avail d) (rdata (reader d)), (advance d (avail d))\<lparr>err := Some (trunc_error d)\<rparr>)"
  by (simp add: readFull_def ReadFull_short setError_stuck avail_advance)

lemma read_err: "err d \<noteq> None \<Longrightarrow> read d n = ([], d)"
  by (auto simp: read_def ReadFull_err setError_noop)

lemma read_ok:
  "err d = None \<Longrightarrow> n \<le> avail d \<Longrightarrow> read d n = (take n (rdata (reader d)), advance d n)"
  by (simp add: read_def ReadFull_ok)

lemma read_short:
  "err d = None \<Longrightarrow> avail d < n \<Longrightarrow>
   read d n = (take (avail d) (rdata (reader d)), (advance d (avail d))\<lparr>err := Some (trunc_error d)\<rparr>)"
  by (simp add: read_def ReadFull_short setError_stuck avail_advance)

lemma readByte_err: "err d \<noteq> None \<Longrightarrow> readByte d = (0, d)"
  by (simp add: readByte_def readFull_err)

lemma readByte_ok:
  "err d = None \<Longrightarrow> 0 < avail d \<Longrightarrow> readByte d = (hd (rdata (reader d)), advance d 1)"
  by (cases "rdata (reader d)") (auto simp: readByte_def readFull_ok avail_def)

lemma readByte_short:
  "err d = None \<Longrightarrow> avail d = 0 \<Longrightarrow> readByte d = (0, d\<lparr>err := Some (trunc_error d)\<rparr>)"
  by (simp add: readByte_def readFull_short)

lemma readInt16_err: "err d \<noteq> None \<Longrightarrow> readInt16 d = (0, d)"
  by (simp add: readInt16_def readFull_err)

lemma readInt32_err: "err d \<noteq> None \<Longrightarrow> readInt32 d = (0, d)"
  by (simp add: readInt32_def readFull_err)

lemma readInt64_err: "err d \<noteq> None \<Longrightarrow> readInt64 d = (0, d)"
  by (simp add: readInt64_def readFull_err)

lemma readInt16_ok:
  "err d = None \<Longrightarrow> 2 \<le> avail d \<Longrightarrow>
   readInt16 d = (bigEndian (take 2 (rdata (reader d))), advance d 2)"
  by (simp add: readInt16_def readFull_ok)

lemma readInt32_ok:
  "err d = None \<Longrightarrow> 4 \<le> avail d \<Longrightarrow>
   readInt32 d = (bigEndian (take 4 (rdata (reader d))), advance d 4)"
  by (simp add: readInt32_def readFull_ok)

lemma readInt64_ok:
  "err d = None \<Longrightarrow> 8 \<le> avail d \<Longrightarrow>
   readInt64 d = (bigEndian (take 8 (rdata (reader d))), advance d 8)"
  by (simp add: readInt64_def readFull_ok)

lemma readInt16_short:
  "err d = None \<Longrightarrow> avail d < 2 \<Longrightarrow>
   readInt16 d = (0, (advance d (avail d))\<lparr>err := Some (trunc_error d)\<rparr>)"
  by (simp add: readInt16_def readFull_short)

lemma readInt32_short:
  "err d = None \<Longrightarrow> avail d < 4 \<Longrightarrow>
   readInt32 d = (0, (advance d (avail d))\<lparr>err := Some (trunc_error d)\<rparr>)"
  by (simp add: readInt32_def readFull_short)

lemma readInt64_short:
  "err d = None \<Longrightarrow> avail d < 8 \<Longrightarrow>
   readInt64 d = (0, (advance d (avail d))\<lparr>err := Some (trunc_error d)\<rparr>)"
  by (simp add: readInt64_def readFull_short)

lemma unzigzag_0 [simp]: "unzigzag 0 = 0"
  by (simp add: unzigzag_def)

lemma readVarInt_loop_err: "err d \<noteq> None \<Longrightarrow> readVarInt_loop n x s d = (if n = 0 then 0 else unzigzag x, d)"
  by (cases n) (simp_all add: readByte_err setError_noop)

lemma readVarInt_err: "err d \<noteq> None \<Longrightarrow> readVarInt d = (0, d)"
  by (simp add: readVarInt_def readVarInt_loop_err)

lemma readString_err: "err d \<noteq> None \<Longrightarrow> readString d = ([], d)"
  by (simp add: readString_def readInt16_err read_err bytesToString_def)

lemma readCompactString_err: "err d \<noteq> None \<Longrightarrow> readCompactString d = ([], d)"
  by (simp add: readCompactString_def readVarInt_err read_err bytesToString_def)

lemma readBytes_err: "err d \<noteq> None \<Longrightarrow> readBytes d = (Some [], d)"
  by (simp add: readBytes_def readInt32_err read_err)

lemma readCompactBytes_err: "err d \<noteq> None \<Longrightarrow> readCompactBytes d = (Some [], d)"
  by (simp add: readCompactBytes_def readVarInt_err read_err)

lemma structDecode_noop: "\<forall>x\<in>set flds. noop (decode x) \<Longrightarrow> err d \<noteq> None \<Longrightarrow> fst (structDecode flds d v) = d"
proof (induction flds arbitrary: v)
  case Nil
  then show ?case by simp
next
  case (Cons f flds)
  obtain d' x where r: "decode f d (fieldByIndex v (index f)) = (d', x)"
    by (cases "decode f d (fieldByIndex v (index f))") auto
  from Cons.prems have "noop (decode f)" by simp
  with Cons.prems(2) have "fst (decode f d (fieldByIndex v (index f))) = d"
    unfolding noop_def by blast
  with r have "d' = d" by simp
  with Cons r show ?case by simp
qed

lemma decodeArray_err: "err d \<noteq> None \<Longrightarrow> decodeArray d v t f = (d, VArray [])"
  by (simp add: decodeArray_def readInt32_err makeArray_def decodeArray_loop.simps setArray_def)

lemma compiled_noop:
  "(\<forall>f. decodeFuncOf t ver tag = Some f \<longrightarrow> noop f)"
  "(\<forall>f. structDecodeFuncOf t2 ver2 = Some f \<longrightarrow> noop f)"
  "(\<forall>f. arrayDecodeFuncOf t3 ver3 tag3 = Some f \<longrightarrow> noop f)"
  "(\<forall>x\<in>set flds. noop (decode x)) \<longrightarrow> (\<forall>flds'. forEachStructField fs i ver4 flds = Some flds' \<longrightarrow> (\<forall>x\<in>set flds'. noop (decode x)))"
  "(\<forall>x\<in>set flds5. noop (decode x)) \<longrightarrow> (\<forall>flds'. forEachStructTag ftyp i5 tags ver5 flds5 = Some flds' \<longrightarrow> (\<forall>x\<in>set flds'. noop (decode x)))"
proof (induction t ver tag and t2 ver2 and t3 ver3 tag3 and fs i ver4 flds and ftyp i5 tags ver5 flds5
    rule: decodeFuncOf_structDecodeFuncOf_arrayDecodeFuncOf_forEachStructField_forEachStructTag.induct)
  case (1 rf t version tag)
  then show ?case by (auto simp: noop_def readerDecodeFuncOf_def)
next
  case (2 version tag)
  then show ?case by (simp add: noop_def decodeBool_def readBool_def readByte_err)
next
  case (3 version tag)
  then show ?case by (simp add: noop_def decodeInt8_def readInt8_def readByte_err)
next
  case (4 version tag)
  then show ?case by (simp add: noop_def decodeInt16_def readInt16_err)
next
  case (5 version tag)
  then show ?case by (simp add: noop_def decodeInt32_def readInt32_err)
next
  case (6 version tag)
  then show ?case by (simp add: noop_def decodeInt64_def readInt64_err)
next
  case (7 version tag)
  then show ?case by (simp add: noop_def stringDecodeFuncOf_def decodeString_def readString_err)
next
  case (8 fs version tag)
  then show ?case by simp
next
  case (9 t version tag)
  then show ?case by (simp add: noop_def bytesDecodeFuncOf_def decodeBytes_def readBytes_err)
next
  case (10 version tag)
  then show ?case by simp
next
  case (11 version tag)
  then show ?case by simp
next
  case (12 ty version)
  then show ?case
    by (auto simp: structDecodeFuncOf.simps [of ty version] noop_def structDecode_noop split: rtype.splits option.splits)
next
  case (13 ty version tag)
  then show ?case
    by (auto simp: arrayDecodeFuncOf.simps [of ty version tag] noop_def decodeArray_err split: rtype.splits option.splits)
next
  case (14 i version flds)
  then show ?case by simp
next
  case (15 ftyp tags fs i version flds)
  then show ?case by (auto split: option.splits)
next
  case (16 ftyp i version flds)
  then show ?case by simp
next
  case (17 ftyp i tag tags version flds)
  then show ?case by (auto split: option.splits if_splits)
qed

section \<open>The sticky error\<close>

text \<open>
  What holds of the sticky error on every source. \<^verbatim>\<open>setError(err)\<close> does nothing when an
  error is already recorded or \<open>err\<close> is \<^verbatim>\<open>nil\<close>; otherwise it records \<open>err\<close> and calls
  \<^verbatim>\<open>discardAll\<close>. Once an error is recorded no later \<^verbatim>\<open>setError\<close> replaces it, and every
  read and every compiled decode operation leaves the decoder as it is, so no byte is taken
  from the source, and yields the zero value: \<open>False\<close>, \<open>0\<close>, the empty string.
\<close>

theorem setError_sticky:
  "(err d \<noteq> None \<or> e = None \<longrightarrow> setError d e = d)
   \<and> (err d = None \<longrightarrow> setError d (Some x) = discardAll (d\<lparr>err := Some x\<rparr>))
   \<and> (err d \<noteq> None \<longrightarrow>
        err (setError d e) = err d
      \<and> Read d n = ([], err d, d) \<and> read d n = ([], d)
      \<and> readByte d = (0, d) \<and> readBool d = (False, d) \<and> readInt8 d = (0, d)
      \<and> readInt16 d = (0, d) \<and> readInt32 d = (0, d) \<and> readInt64 d = (0, d)
      \<and> readVarInt d = (0, d) \<and> readString d = ([], d) \<and> readCompactString d = ([], d)
      \<and> decodeBool d v = (d, VBool False) \<and> decodeInt32 d v = (d, VInt32 0)
      \<and> decodeString d v = (d, VString [])
      \<and> (\<forall>t version tag f. decodeFuncOf t version tag = Some f \<longrightarrow> fst (f d v) = d))"
proof (intro conjI impI)
  assume "err d \<noteq> None \<or> e = None"
  then show "setError d e = d" by (rule setError_noop)
next
  assume "err d = None"
  then show "setError d (Some x) = discardAll (d\<lparr>err := Some x\<rparr>)"
    by (subst setError.simps) simp
next
  assume e: "err d \<noteq> None"
  then show "err (setError d e) = err d" by (simp add: setError_noop)
  from e show "Read d n = ([], err d, d)" by (rule Read_err)
  from e show "read d n = ([], d)" by (rule read_err)
  from e show "readByte d = (0, d)" by (rule readByte_err)
  from e show "readBool d = (False, d)" by (simp add: readBool_def readByte_err)
  from e show "readInt8 d = (0, d)" by (simp add: readInt8_def readByte_err)
  from e show "readInt16 d = (0, d)" by (rule readInt16_err)
  from e show "readInt32 d = (0, d)" by (rule readInt32_err)
  from e show "readInt64 d = (0, d)" by (rule readInt64_err)
  from e show "readVarInt d = (0, d)" by (rule readVarInt_err)
  from e show "readString d = ([], d)" by (rule readString_err)
  from e show "readCompactString d = ([], d)" by (rule readCompactString_err)
  from e show "decodeBool d v = (d, VBool False)"
    by (simp add: decodeBool_def readBool_def readByte_err setBool_def)
  from e show "decodeInt32 d v = (d, VInt32 0)"
    by (simp add: decodeInt32_def readInt32_err setInt32_def)
  from e show "decodeString d v = (d, VString [])"
    by (simp add: decodeString_def readString_err setString_def)
  from e show "\<forall>t version tag f. decodeFuncOf t version tag = Some f \<longrightarrow> fst (f d v) = d"
    using compiled_noop(1) unfolding noop_def by blast
qed

theorem setError_sticky_witness:
  "err dec_failed \<noteq> None
   \<and> setError dec_failed (Some EOF) = dec_failed
   \<and> err (setError dec_failed (Some EOF)) = Some ErrVarInt
   \<and> readInt32 dec_failed = (0, dec_failed)
   \<and> readString dec_failed = ([], dec_failed)
   \<and> fst (decodeInt32 dec_failed VOther) = dec_failed
   \<and> err dec_fresh = None
   \<and> setError dec_fresh None = dec_fresh
   \<and> setError dec_fresh (Some EOF) = discardAll (dec_fresh\<lparr>err := Some EOF\<rparr>)"
proof -
  have a: "err dec_failed \<noteq> None" by (simp add: dec_failed_def)
  have b: "err dec_fresh = None" by (simp add: dec_fresh_def)
  have c: "err dec_failed = Some ErrVarInt" by (simp add: dec_failed_def)
  have t: "decodeFuncOf TInt32 0 \<lparr>MinVersion = 0, MaxVersion = 0, Compact = False\<rparr> = Some decodeInt32"
    by simp
  from setError_sticky [of dec_failed "Some EOF" EOF 4 VOther] a c t
    setError_sticky [of dec_fresh None EOF 4 VOther] b
  show ?thesis by metis
qed

lemma readString_none:
  "err d = None \<Longrightarrow> 2 \<le> avail d \<Longrightarrow> sint (bigEndian (take 2 (rdata (reader d))) :: 16 word) < 0 \<Longrightarrow>
   readString d = ([], advance d 2)"
  by (simp add: readString_def readInt16_ok)

lemma readString_empty:
  "err d = None \<Longrightarrow> 2 \<le> avail d \<Longrightarrow> (bigEndian (take 2 (rdata (reader d))) :: 16 word) = 0 \<Longrightarrow>
   readString d = ([], advance d 2)"
  by (simp add: readString_def readInt16_ok read_ok bytesToString_def)

lemma readBytes_nil:
  "err d = None \<Longrightarrow> 4 \<le> avail d \<Longrightarrow> sint (bigEndian (take 4 (rdata (reader d))) :: 32 word) < 0 \<Longrightarrow>
   readBytes d = (None, advance d 4)"
  by (simp add: readBytes_def readInt32_ok)

lemma readBytes_empty:
  "err d = None \<Longrightarrow> 4 \<le> avail d \<Longrightarrow> (bigEndian (take 4 (rdata (reader d))) :: 32 word) = 0 \<Longrightarrow>
   readBytes d = (Some [], advance d 4)"
  by (simp add: readBytes_def readInt32_ok read_ok)

section \<open>Absent strings and byte arrays\<close>

text \<open>
  Claim C7. A fixed-form string whose 16-bit length prefix is negative decodes to the
  empty string, as a string with length prefix zero does. A byte array whose 32-bit length
  prefix is negative decodes to \<^verbatim>\<open>nil\<close> (\<open>None\<close>), a byte array with length prefix zero to
  the empty slice that is not \<^verbatim>\<open>nil\<close> (\<open>Some []\<close>), and the two differ.
\<close>

theorem string_bytes_absent:
  assumes "err d = None"
  shows "(2 \<le> avail d \<and> sint (bigEndian (take 2 (rdata (reader d))) :: 16 word) < 0 \<longrightarrow>
            readString d = ([], advance d 2) \<and> decodeString d v = (advance d 2, VString []))
       \<and> (2 \<le> avail d \<and> (bigEndian (take 2 (rdata (reader d))) :: 16 word) = 0 \<longrightarrow>
            readString d = ([], advance d 2) \<and> decodeString d v = (advance d 2, VString []))
       \<and> (4 \<le> avail d \<and> sint (bigEndian (take 4 (rdata (reader d))) :: 32 word) < 0 \<longrightarrow>
            readBytes d = (None, advance d 4) \<and> decodeBytes d v = (advance d 4, VBytes None))
       \<and> (4 \<le> avail d \<and> (bigEndian (take 4 (rdata (reader d))) :: 32 word) = 0 \<longrightarrow>
            readBytes d = (Some [], advance d 4) \<and> decodeBytes d v = (advance d 4, VBytes (Some [])))
       \<and> VBytes None \<noteq> VBytes (Some [])"
  using assms
  by (simp add: readString_none readString_empty readBytes_nil readBytes_empty
      decodeString_def decodeBytes_def setString_def setBytes_def)

theorem string_bytes_absent_witness:
  "decodeString (dec_of [0xFF, 0xFF, 0x61] 3 True) VOther = (advance (dec_of [0xFF, 0xFF, 0x61] 3 True) 2, VString [])
   \<and> decodeString (dec_of [0, 0, 0x61] 3 True) VOther = (advance (dec_of [0, 0, 0x61] 3 True) 2, VString [])
   \<and> decodeBytes (dec_of [0xFF, 0xFF, 0xFF, 0xFF, 1] 5 True) VOther
       = (advance (dec_of [0xFF, 0xFF, 0xFF, 0xFF, 1] 5 True) 4, VBytes None)
   \<and> decodeBytes (dec_of [0, 0, 0, 0, 1] 5 True) VOther
       = (advance (dec_of [0, 0, 0, 0, 1] 5 True) 4, VBytes (Some []))"
proof -
  have h1: "sint (bigEndian (take 2 [0xFF, 0xFF, 0x61 :: byte]) :: 16 word) < 0"
    by (simp add: bigEndian_def)
  have h2: "(bigEndian (take 2 [0, 0, 0x61 :: byte]) :: 16 word) = 0"
    by (simp add: bigEndian_def)
  have h3: "sint (bigEndian (take 4 [0xFF, 0xFF, 0xFF, 0xFF, 1 :: byte]) :: 32 word) < 0"
    by (simp add: bigEndian_def)
  have h4: "(bigEndian (take 4 [0, 0, 0, 0, 1 :: byte]) :: 32 word) = 0"
    by (simp add: bigEndian_def)
  show ?thesis
    using string_bytes_absent [of "dec_of [0xFF, 0xFF, 0x61] 3 True" VOther]
      string_bytes_absent [of "dec_of [0, 0, 0x61] 3 True" VOther]
      string_bytes_absent [of "dec_of [0xFF, 0xFF, 0xFF, 0xFF, 1] 5 True" VOther]
      string_bytes_absent [of "dec_of [0, 0, 0, 0, 1] 5 True" VOther]
      h1 h2 h3 h4
    by simp
qed

section \<open>Truncated strings\<close>

text \<open>
  Claim C10. When the 16-bit length prefix of a fixed-form string is a positive \<open>n\<close> and
  fewer than \<open>n\<close> bytes can be read, because the budget or the source ends,
  \<^verbatim>\<open>readString\<close> records the error of the short read (\<^verbatim>\<open>io.ErrUnexpectedEOF\<close> when at
  least one byte arrived, \<^verbatim>\<open>io.EOF\<close> when none did) and returns the string of the \<open>k\<close>
  bytes that were read; \<^verbatim>\<open>decodeString\<close> writes that partial string to the destination.
\<close>

theorem readString_partial:
  assumes "err d = None" and "2 \<le> avail d"
    and "0 < sint (bigEndian (take 2 (rdata (reader d))) :: 16 word)"
    and "avail (advance d 2) < nat (sint (bigEndian (take 2 (rdata (reader d))) :: 16 word))"
  shows "let k = avail (advance d 2);
             s = take k (drop 2 (rdata (reader d)));
             d' = (advance d (2 + k))\<lparr>err := Some (trunc_error (advance d 2))\<rparr>
         in readString d = (s, d') \<and> decodeString d v = (d', VString s) \<and> length s = k
            \<and> (remain d \<le> length (rdata (reader d)) \<or> rfail (reader d) = None \<longrightarrow>
                 trunc_error (advance d 2) = (if 0 < k then ErrUnexpectedEOF else EOF))"
proof -
  define k where "k = avail (advance d 2)"
  have r: "readString d = (take k (drop 2 (rdata (reader d))),
      (advance d (2 + k))\<lparr>err := Some (trunc_error (advance d 2))\<rparr>)"
    using assms
    by (simp add: readString_def readInt16_ok read_short bytesToString_def advance_advance k_def)
  have l: "length (take k (drop 2 (rdata (reader d)))) = k"
    by (auto simp: k_def avail_def)
  have e: "remain d \<le> length (rdata (reader d)) \<or> rfail (reader d) = None \<Longrightarrow>
      trunc_error (advance d 2) = (if 0 < k then ErrUnexpectedEOF else EOF)"
    by (auto simp: trunc_error_def stop_error_def reader_fail_def Let_def k_def avail_def)
  show ?thesis
    using r l e by (simp add: Let_def k_def decodeString_def setString_def)
qed

theorem readString_partial_witness:
  "readString (dec_of [0, 5, 0x6F, 0x6B] 4 True)
     = ([0x6F, 0x6B], (advance (dec_of [0, 5, 0x6F, 0x6B] 4 True) 4)\<lparr>err := Some ErrUnexpectedEOF\<rparr>)
   \<and> decodeString (dec_of [0, 5, 0x6F, 0x6B] 4 True) VOther
     = ((advance (dec_of [0, 5, 0x6F, 0x6B] 4 True) 4)\<lparr>err := Some ErrUnexpectedEOF\<rparr>, VString [0x6F, 0x6B])"
proof -
  have h: "(bigEndian (take 2 [0, 5, 0x6F, 0x6B :: byte]) :: 16 word) = 5"
    by (simp add: bigEndian_def)
  show ?thesis
    using readString_partial [of "dec_of [0, 5, 0x6F, 0x6B] 4 True" VOther] h
    by (simp add: Let_def avail_def)
qed

section \<open>The drain invariant\<close>

lemma steps_refl: "steps d d"
  unfolding steps_def by (auto intro: exI [where x = 0])

lemma avail_reader: "reader d' = reader (advance d k) \<Longrightarrow> remain d' = remain d - k \<Longrightarrow> k \<le> avail d \<Longrightarrow> avail d' = avail d - k"
  by (auto simp: avail_def)

lemma reader_advance_advance: "reader (advance (advance d j) k) = reader (advance d (j + k))"
  by (simp add: advance_advance)

lemma steps_trans:
  assumes "steps d d'" "steps d' d''"
  shows "steps d d''"
proof -
  from assms(1) obtain j where j: "j \<le> avail d" "reader d' = reader (advance d j)" "remain d' = remain d - j"
    unfolding steps_def by blast
  from assms(2) obtain k where k: "k \<le> avail d'" "reader d'' = reader (advance d' k)" "remain d'' = remain d' - k"
    unfolding steps_def by blast
  have a': "avail d' = avail d - j" using j by (simp add: avail_reader)
  have r: "reader d'' = reader (advance d (j + k))"
    using j k by (simp add: advance_def ac_simps)
  have m: "remain d'' = remain d - (j + k)" using j k by simp
  have le: "j + k \<le> avail d" using j k a' by simp
  have rf: "reader_fail (reader d') = reader_fail (reader d)"
    using j by (simp add: reader_fail_def advance_def)
  have e: "err d'' = err d \<or>
           (err d = None \<and> avail d'' = 0
            \<and> err d'' \<in> {Some EOF, Some ErrUnexpectedEOF, Some (reader_fail (reader d))})"
  proof (cases "err d' = err d")
    case True
    with assms(2) rf show ?thesis unfolding steps_def by auto
  next
    case False
    with assms(1) have f: "err d = None" "avail d' = 0"
      "err d' \<in> {Some EOF, Some ErrUnexpectedEOF, Some (reader_fail (reader d))}"
      unfolding steps_def by auto
    from f(3) have ne: "err d' \<noteq> None" by auto
    with assms(2) have same: "err d'' = err d'" unfolding steps_def by auto
    from k f(2) have "k = 0" by simp
    with k have "avail d'' = avail d'" by (simp add: avail_def)
    with f same show ?thesis by simp
  qed
  from le r m e show ?thesis unfolding steps_def by blast
qed

lemma trunc_error_cases: "trunc_error d \<in> {EOF, ErrUnexpectedEOF, reader_fail (reader d)}"
  by (auto simp: trunc_error_def stop_error_def Let_def)

lemma steps_advance: "k \<le> avail d \<Longrightarrow> steps d (advance d k)"
  unfolding steps_def by auto

lemma steps_short: "steps d ((advance d (avail d))\<lparr>err := Some (trunc_error d)\<rparr>)" if "err d = None"
proof -
  have "avail ((advance d (avail d))\<lparr>err := Some (trunc_error d)\<rparr>) = 0"
    by (auto simp: avail_def)
  moreover have "reader ((advance d (avail d))\<lparr>err := Some (trunc_error d)\<rparr>) = reader (advance d (avail d))"
    by simp
  moreover have "remain ((advance d (avail d))\<lparr>err := Some (trunc_error d)\<rparr>) = remain d - avail d"
    by simp
  ultimately show ?thesis
    unfolding steps_def using that trunc_error_cases [of d]
    by (intro conjI exI [where x = "avail d"]) auto
qed

lemma ReadFull_cases:
  "(err d \<noteq> None \<and> ReadFull d n = ([], if n = 0 then None else err d, d))
   \<or> (err d = None \<and> n \<le> avail d \<and> ReadFull d n = (take n (rdata (reader d)), None, advance d n))
   \<or> (err d = None \<and> avail d < n \<and> ReadFull d n = (take (avail d) (rdata (reader d)), Some (trunc_error d), advance d (avail d)))"
  using ReadFull_err [of d n] ReadFull_ok [of d n] ReadFull_short [of d n]
  by (cases "err d = None"; cases "n \<le> avail d") auto

lemma read_steps: "steps d (snd (read d n))"
proof (cases "err d = None")
  case False
  then show ?thesis by (simp add: read_err steps_refl)
next
  case True
  show ?thesis
  proof (cases "n \<le> avail d")
    case le: True
    with True show ?thesis by (simp add: read_ok steps_advance)
  next
    case False
    with True show ?thesis by (simp add: read_short steps_short)
  qed
qed

lemma readFull_steps: "steps d (snd (snd (readFull d n)))"
proof -
  have "snd (snd (readFull d n)) = snd (read d n)"
    by (simp add: readFull_def read_def split: prod.splits)
  then show ?thesis by (simp add: read_steps)
qed

lemma readByte_steps: "steps d (snd (readByte d))"
  using readFull_steps [of d 1] by (auto simp: readByte_def split: prod.splits)

lemma readInt16_steps: "steps d (snd (readInt16 d))"
  using readFull_steps [of d 2] by (auto simp: readInt16_def split: prod.splits)

lemma readInt32_steps: "steps d (snd (readInt32 d))"
  using readFull_steps [of d 4] by (auto simp: readInt32_def split: prod.splits)

lemma readInt64_steps: "steps d (snd (readInt64 d))"
  using readFull_steps [of d 8] by (auto simp: readInt64_def split: prod.splits)

lemma readString_steps: "steps d (snd (readString d))"
proof -
  obtain n d' where a: "readInt16 d = (n, d')" by (cases "readInt16 d") auto
  with readInt16_steps [of d] have s1: "steps d d'" by simp
  show ?thesis
  proof (cases "sint n < 0")
    case True
    with a s1 show ?thesis by (simp add: readString_def)
  next
    case False
    have "snd (readString d) = snd (read d' (nat (sint n)))"
      using a False by (simp add: readString_def split: prod.splits)
    with steps_trans [OF s1 read_steps [of d' "nat (sint n)"]] show ?thesis by simp
  qed
qed

lemma readBytes_steps: "steps d (snd (readBytes d))"
proof -
  obtain n d' where a: "readInt32 d = (n, d')" by (cases "readInt32 d") auto
  with readInt32_steps [of d] have s1: "steps d d'" by simp
  show ?thesis
  proof (cases "sint n < 0")
    case True
    with a s1 show ?thesis by (simp add: readBytes_def)
  next
    case False
    have "snd (readBytes d) = snd (read d' (nat (sint n)))"
      using a False by (simp add: readBytes_def split: prod.splits)
    with steps_trans [OF s1 read_steps [of d' "nat (sint n)"]] show ?thesis by simp
  qed
qed

lemma fst_decode:
  "fst (decodeBool d v) = snd (readByte d)" "fst (decodeInt8 d v) = snd (readByte d)"
  "fst (decodeInt16 d v) = snd (readInt16 d)" "fst (decodeInt32 d v) = snd (readInt32 d)"
  "fst (decodeInt64 d v) = snd (readInt64 d)" "fst (decodeString d v) = snd (readString d)"
  "fst (decodeBytes d v) = snd (readBytes d)"
  by (simp_all add: decodeBool_def decodeInt8_def decodeInt16_def decodeInt32_def
      decodeInt64_def decodeString_def decodeBytes_def readBool_def readInt8_def split: prod.splits)

lemma sound_prims:
  "sound decodeBool" "sound decodeInt8" "sound decodeInt16" "sound decodeInt32"
  "sound decodeInt64" "sound decodeString" "sound decodeBytes"
  by (simp_all add: sound_def fst_decode readByte_steps readInt16_steps readInt32_steps
      readInt64_steps readString_steps readBytes_steps)

lemma decodeArray_loop_steps:
  "sound f \<Longrightarrow> steps d (fst (decodeArray_loop f d a i n))"
proof (induction f d a i n rule: decodeArray_loop.induct)
  case (1 decodeElem d a i n)
  show ?case
  proof (cases "i < n \<and> remain d > 0")
    case False
    then show ?thesis by (subst decodeArray_loop.simps) (auto simp: steps_refl)
  next
    case True
    obtain d' x where r: "decodeElem d (a ! i) = (d', x)" by (cases "decodeElem d (a ! i)") auto
    from 1(2) r have s1: "steps d d'" unfolding sound_def by (metis fst_conv)
    from 1(1) [OF True r [symmetric] 1(2)]
    have s2: "steps d' (fst (decodeArray_loop decodeElem d' (a[i := x]) (Suc i) n))" .
    have "decodeArray_loop decodeElem d a i n = decodeArray_loop decodeElem d' (a[i := x]) (Suc i) n"
      using True r by (subst decodeArray_loop.simps) simp
    with steps_trans [OF s1 s2] show ?thesis by simp
  qed
qed

lemma decodeArray_sound: "sound f \<Longrightarrow> sound (\<lambda>d v. decodeArray d v t f)"
  unfolding sound_def
proof (intro allI)
  fix d v
  assume f: "\<forall>d v. steps d (fst (f d v))"
  then have sf: "sound f" by (simp add: sound_def)
  obtain n d' where a: "readInt32 d = (n, d')" by (cases "readInt32 d") auto
  with readInt32_steps [of d] have s1: "steps d d'" by simp
  show "steps d (fst (decodeArray d v t f))"
  proof (cases "sint n < 0")
    case True
    with a s1 show ?thesis by (simp add: decodeArray_def)
  next
    case False
    have "fst (decodeArray d v t f) = fst (decodeArray_loop f d' (makeArray t (nat (sint n))) 0 (nat (sint n)))"
      using a False by (simp add: decodeArray_def split: prod.splits)
    with steps_trans [OF s1 decodeArray_loop_steps [OF sf]] show ?thesis by simp
  qed
qed

lemma structDecode_steps:
  "\<forall>x\<in>set flds. sound (decode x) \<Longrightarrow> steps d (fst (structDecode flds d v))"
proof (induction flds arbitrary: d v)
  case Nil
  then show ?case by (simp add: steps_refl)
next
  case (Cons f flds)
  obtain d' x where r: "decode f d (fieldByIndex v (index f)) = (d', x)"
    by (cases "decode f d (fieldByIndex v (index f))") auto
  from Cons.prems have "sound (decode f)" by simp
  with r have s1: "steps d d'" unfolding sound_def by (metis fst_conv)
  from Cons.IH [of d' "setFieldByIndex v (index f) x"] Cons.prems
  have s2: "steps d' (fst (structDecode flds d' (setFieldByIndex v (index f) x)))" by simp
  from steps_trans [OF s1 s2] r show ?case by simp
qed

lemma structDecode_sound: "\<forall>x\<in>set flds. sound (decode x) \<Longrightarrow> sound (structDecode flds)"
  by (simp add: sound_def structDecode_steps)

lemma compiled_sound:
  "plain t \<longrightarrow> (\<forall>f. decodeFuncOf t ver tag = Some f \<longrightarrow> sound f)"
  "plain t2 \<longrightarrow> (\<forall>f. structDecodeFuncOf t2 ver2 = Some f \<longrightarrow> sound f)"
  "plain t3 \<longrightarrow> (\<forall>f. arrayDecodeFuncOf t3 ver3 tag3 = Some f \<longrightarrow> sound f)"
  "(\<forall>f\<in>set fs. plain (fst f)) \<longrightarrow> (\<forall>x\<in>set flds. sound (decode x)) \<longrightarrow>
     (\<forall>flds'. forEachStructField fs i ver4 flds = Some flds' \<longrightarrow> (\<forall>x\<in>set flds'. sound (decode x)))"
  "plain ftyp \<longrightarrow> (\<forall>x\<in>set flds5. sound (decode x)) \<longrightarrow>
     (\<forall>flds'. forEachStructTag ftyp i5 tags ver5 flds5 = Some flds' \<longrightarrow> (\<forall>x\<in>set flds'. sound (decode x)))"
proof (induction t ver tag and t2 ver2 and t3 ver3 tag3 and fs i ver4 flds and ftyp i5 tags ver5 flds5
    rule: decodeFuncOf_structDecodeFuncOf_arrayDecodeFuncOf_forEachStructField_forEachStructTag.induct)
  case (1 rf t version tag)
  then show ?case by simp
next
  case (2 version tag)
  then show ?case by (simp add: sound_prims)
next
  case (3 version tag)
  then show ?case by (simp add: sound_prims)
next
  case (4 version tag)
  then show ?case by (simp add: sound_prims)
next
  case (5 version tag)
  then show ?case by (simp add: sound_prims)
next
  case (6 version tag)
  then show ?case by (simp add: sound_prims)
next
  case (7 version tag)
  then show ?case by (simp add: stringDecodeFuncOf_def sound_prims)
next
  case (8 fs version tag)
  then show ?case by simp
next
  case (9 t version tag)
  then show ?case by (simp add: bytesDecodeFuncOf_def sound_prims)
next
  case (10 version tag)
  then show ?case by simp
next
  case (11 version tag)
  then show ?case by simp
next
  case (12 ty version)
  then show ?case
    by (auto simp: structDecodeFuncOf.simps [of ty version] structDecode_sound split: rtype.splits option.splits)
next
  case (13 ty version tag)
  then show ?case
    by (auto simp: arrayDecodeFuncOf.simps [of ty version tag] decodeArray_sound split: rtype.splits option.splits)
next
  case (14 i version flds)
  then show ?case by simp
next
  case (15 ftyp tags fs i version flds)
  then show ?case by (auto split: option.splits)
next
  case (16 ftyp i version flds)
  then show ?case by simp
next
  case (17 ftyp i tag tags version flds)
  then show ?case by (auto split: option.splits if_splits)
qed

lemma discard_new:
  "err d = None \<Longrightarrow>
   discard d n =
     (if rdiscarder (reader d) then
        (if min n (avail d) < min n (remain d)
         then (advance d (min n (avail d)))\<lparr>err := Some (reader_fail (reader d))\<rparr>
         else advance d (min n (avail d)))
      else
        (if stop_error (advance d (avail d)) = EOF then advance d (avail d)
         else (advance d (avail d))\<lparr>err := Some (stop_error (advance d (avail d)))\<rparr>))"
proof (cases "rdiscarder (reader d)")
  case True
  have k: "min (if remain d < n then remain d else n) (length (rdata (reader d))) = min n (avail d)"
    by (auto simp: avail_def)
  have m: "(if remain d < n then remain d else n) = min n (remain d)"
    by auto
  have rd: "reader_Discard (reader d) (min n (remain d)) =
     (min n (avail d), if min n (avail d) < min n (remain d) then Some (reader_fail (reader d)) else None,
      reader (advance d (min n (avail d))))"
    using k m by (simp add: reader_Discard_def Let_def advance_def)
  have a: "d\<lparr>reader := reader (advance d (min n (avail d))), remain := remain d - min n (avail d)\<rparr>
      = advance d (min n (avail d))"
    by (simp add: advance_def)
  assume e: "err d = None"
  have st: "min n (avail d) < min n (remain d) \<Longrightarrow> avail (advance d (min n (avail d))) = 0"
    by (auto simp: avail_def min_def split: if_splits)
  show ?thesis
    apply (subst discard.simps)
    using True e st
    apply (simp only: Let_def m rd a split if_True)
    apply (auto simp: setError_stuck)
    done
next
  case False
  assume e: "err d = None"
  have st: "avail (advance d (avail d)) = 0"
    by (auto simp: avail_def min_def)
  show ?thesis
    apply (subst discard.simps)
    using False e st
    apply (simp add: Let_def Copy_Discard_spec)
    apply (auto simp: setError_stuck)
    done
qed

lemma discardAll_reader:
  "reader (discardAll d) = (if err d \<noteq> None \<and> \<not> rdiscarder (reader d) then reader d else reader (advance d (avail d)))"
  "remain (discardAll d) = (if err d \<noteq> None \<and> \<not> rdiscarder (reader d) then remain d else remain d - avail d)"
proof -
  have m: "min (remain d) (avail d) = avail d" by (simp add: avail_def)
  show "reader (discardAll d) = (if err d \<noteq> None \<and> \<not> rdiscarder (reader d) then reader d else reader (advance d (avail d)))"
    by (cases "err d = None") (simp_all add: discardAll.simps discard_new discard_err m)
  show "remain (discardAll d) = (if err d \<noteq> None \<and> \<not> rdiscarder (reader d) then remain d else remain d - avail d)"
    by (cases "err d = None") (simp_all add: discardAll.simps discard_new discard_err m)
qed

lemma discardAll_err:
  "err (discardAll d) =
     (if err d \<noteq> None then err d
      else if rdiscarder (reader d) then (if avail d < remain d then Some (reader_fail (reader d)) else None)
      else (if stop_error (advance d (avail d)) = EOF then None else Some (stop_error (advance d (avail d)))))"
proof -
  have m: "min (remain d) (avail d) = avail d" by (simp add: avail_def)
  show ?thesis
    by (cases "err d = None") (simp_all add: discardAll.simps discard_new discard_err m)
qed

lemma frame_end:
  assumes st: "steps d d1" and e: "err d = None"
  shows "reader (discardAll d1) = reader (advance d (avail d))"
    and "remain (discardAll d1) = remain d - avail d"
    and "err d1 \<noteq> None \<Longrightarrow> reader d1 = reader (advance d (avail d)) \<and> remain d1 = remain d - avail d"
proof -
  from st obtain k where k: "k \<le> avail d" "reader d1 = reader (advance d k)" "remain d1 = remain d - k"
    unfolding steps_def by blast
  have a1: "avail d1 = avail d - k" using k by (simp add: avail_reader)
  have adv: "reader (advance d1 (avail d1)) = reader (advance d (avail d))"
    using k a1 by (simp add: advance_def ac_simps)
  have rem: "remain d1 - avail d1 = remain d - avail d"
    using k a1 by (auto simp: avail_def)
  have stuck: "err d1 \<noteq> None \<Longrightarrow> avail d1 = 0"
    using st e unfolding steps_def by auto
  show "reader (discardAll d1) = reader (advance d (avail d))"
  proof (cases "err d1 \<noteq> None \<and> \<not> rdiscarder (reader d1)")
    case True
    with stuck have "avail d1 = 0" by simp
    with adv have "reader d1 = reader (advance d (avail d))" by simp
    with True show ?thesis by (simp add: discardAll_reader)
  next
    case False
    with adv show ?thesis by (auto simp: discardAll_reader)
  qed
  show "remain (discardAll d1) = remain d - avail d"
  proof (cases "err d1 \<noteq> None \<and> \<not> rdiscarder (reader d1)")
    case True
    with stuck have "avail d1 = 0" by simp
    with rem have "remain d1 = remain d - avail d" by simp
    with True show ?thesis by (simp add: discardAll_reader)
  next
    case False
    with rem show ?thesis by (auto simp: discardAll_reader)
  qed
  show "reader d1 = reader (advance d (avail d)) \<and> remain d1 = remain d - avail d" if "err d1 \<noteq> None"
  proof -
    from stuck that have z: "avail d1 = 0" by simp
    with adv rem show ?thesis by simp
  qed
qed

lemma frame_end_err:
  assumes st: "steps d d1" and e: "err d = None" and b: "rdiscarder (reader d)"
    and short: "length (rdata (reader d)) < remain d"
  shows "err (discardAll d1) \<in> {Some EOF, Some ErrUnexpectedEOF, Some (reader_fail (reader d))}"
proof -
  from st obtain k where k: "k \<le> avail d" "reader d1 = reader (advance d k)" "remain d1 = remain d - k"
    unfolding steps_def by blast
  have a1: "avail d1 < remain d1" using k short by (auto simp: avail_def)
  have b1: "rdiscarder (reader d1)" using k b by simp
  have rf: "reader_fail (reader d1) = reader_fail (reader d)" using k by (simp add: reader_fail_def)
  show ?thesis
  proof (cases "err d1 = None")
    case True
    with a1 b1 rf show ?thesis by (simp add: discardAll_err)
  next
    case False
    with st e have "err d1 \<in> {Some EOF, Some ErrUnexpectedEOF, Some (reader_fail (reader d))}"
      unfolding steps_def by auto
    with False show ?thesis by (simp add: discardAll_err)
  qed
qed

text \<open>
  Claim C1, as amended. A decode call runs a compiled plan on a decoder with budget \<open>L\<close> and
  no error, and ends with \<^verbatim>\<open>discardAll\<close>. For every plan compiled for a type with no
  self-decoding part: if the source holds at least \<open>L\<close> bytes, the budget is fully consumed
  at the end and the cursor has advanced by exactly \<open>L\<close>, on success or failure; if the
  source holds fewer than \<open>L\<close> bytes, the cursor has advanced by exactly the bytes the source
  held and the rest of the budget is left, and on a source with bulk skip an error is
  recorded, \<^verbatim>\<open>io.EOF\<close> or \<^verbatim>\<open>io.ErrUnexpectedEOF\<close> when the source ends with \<^verbatim>\<open>io.EOF\<close>. When
  the plan itself failed, the drain was already complete when it returned.
\<close>

theorem frame_drained:
  assumes "plain t" and "decodeFuncOf t version tag = Some f" and "err d = None"
  shows "let d1 = fst (f d v); d' = discardAll d1; L = remain d; held = length (rdata (reader d)) in
     (L \<le> held \<longrightarrow> remain d' = 0 \<and> rpos (reader d') = rpos (reader d) + L)
   \<and> (held < L \<longrightarrow> remain d' = L - held \<and> rpos (reader d') = rpos (reader d) + held
        \<and> (rdiscarder (reader d) \<longrightarrow> err d' \<noteq> None
             \<and> (rfail (reader d) = None \<longrightarrow> err d' \<in> {Some EOF, Some ErrUnexpectedEOF})))
   \<and> (err d1 \<noteq> None \<longrightarrow> reader d1 = reader d' \<and> remain d1 = remain d')"
proof -
  from compiled_sound(1) [of t version tag] assms(1,2) have "sound f" by simp
  then have st: "steps d (fst (f d v))" by (simp add: sound_def)
  note fe = frame_end [OF st assms(3)]
  have 1: "remain d \<le> length (rdata (reader d)) \<Longrightarrow>
      remain (discardAll (fst (f d v))) = 0 \<and> rpos (reader (discardAll (fst (f d v)))) = rpos (reader d) + remain d"
    using fe(1,2) by (simp add: avail_def)
  have 2: "length (rdata (reader d)) < remain d \<Longrightarrow>
      remain (discardAll (fst (f d v))) = remain d - length (rdata (reader d))
      \<and> rpos (reader (discardAll (fst (f d v)))) = rpos (reader d) + length (rdata (reader d))"
    using fe(1,2) by (simp add: avail_def)
  have 3: "length (rdata (reader d)) < remain d \<Longrightarrow> rdiscarder (reader d) \<Longrightarrow>
      err (discardAll (fst (f d v))) \<noteq> None
      \<and> (rfail (reader d) = None \<longrightarrow> err (discardAll (fst (f d v))) \<in> {Some EOF, Some ErrUnexpectedEOF})"
    using frame_end_err [OF st assms(3)] by (auto simp: reader_fail_def)
  have 4: "err (fst (f d v)) \<noteq> None \<Longrightarrow>
      reader (fst (f d v)) = reader (discardAll (fst (f d v))) \<and> remain (fst (f d v)) = remain (discardAll (fst (f d v)))"
    using fe by simp
  show ?thesis unfolding Let_def using 1 2 3 4 by blast
qed

lemma rec_plan_compiled: "decodeFuncOf rec_type 1 tag_all = Some rec_plan"
  by (simp add: rec_type_def rec_plan_def tag_all_def structDecodeFuncOf.simps)

lemma rec_plan_5:
  "fst (rec_plan (dec_of frame 5 bulk) v) = (advance (dec_of frame 5 bulk) 5)\<lparr>err := Some ErrUnexpectedEOF\<rparr>"
  by (simp add: rec_plan_def frame_def decodeInt32_def readInt32_ok stringDecodeFuncOf_def
      decodeString_def readString_def readInt16_short read_err avail_def advance_advance
      trunc_error_def stop_error_def Let_def)

theorem frame_drained_witness:
  "plain rec_type \<and> decodeFuncOf rec_type 1 tag_all = Some rec_plan
   \<and> err (fst (rec_plan (dec_of frame 5 True) VOther)) = Some ErrUnexpectedEOF
   \<and> remain (fst (rec_plan (dec_of frame 5 True) VOther)) = 0
   \<and> remain (discardAll (fst (rec_plan (dec_of frame 5 True) VOther))) = 0
   \<and> rpos (reader (discardAll (fst (rec_plan (dec_of frame 5 True) VOther)))) = 5
   \<and> remain (discardAll (fst (rec_plan (dec_of [0, 0, 0] 5 True) VOther))) = 2
   \<and> rpos (reader (discardAll (fst (rec_plan (dec_of [0, 0, 0] 5 True) VOther)))) = 3
   \<and> err (discardAll (fst (rec_plan (dec_of [0, 0, 0] 5 True) VOther))) \<in> {Some EOF, Some ErrUnexpectedEOF}"
proof -
  have p: "plain rec_type" by (simp add: rec_type_def)
  have e: "err (fst (rec_plan (dec_of frame 5 True) VOther)) = Some ErrUnexpectedEOF"
    by (simp add: rec_plan_5)
  have l: "length frame = 8" by (simp add: frame_def)
  show ?thesis
    using frame_drained [OF p rec_plan_compiled, of "dec_of frame 5 True" VOther]
      frame_drained [OF p rec_plan_compiled, of "dec_of [0, 0, 0] 5 True" VOther]
      p rec_plan_compiled e l
    by (simp add: Let_def)
qed

text \<open>
  Claim C1 as stated fails where the source holds fewer bytes than the budget: with three
  bytes in the source and a budget of five, decoding an \<^verbatim>\<open>int32\<close> ends with
  \<^verbatim>\<open>io.ErrUnexpectedEOF\<close>, the cursor has advanced by three, not five, and two bytes of
  the budget are left.
\<close>

theorem frame_short_source_counterexample:
  "length (rdata (reader (dec_of [0, 0, 0] 5 True))) < remain (dec_of [0, 0, 0] 5 True)
   \<and> decodeFuncOf TInt32 1 tag_all = Some decodeInt32
   \<and> err (discardAll (fst (decodeInt32 (dec_of [0, 0, 0] 5 True) VOther))) = Some ErrUnexpectedEOF
   \<and> rpos (reader (discardAll (fst (decodeInt32 (dec_of [0, 0, 0] 5 True) VOther)))) = 3
   \<and> rpos (reader (discardAll (fst (decodeInt32 (dec_of [0, 0, 0] 5 True) VOther))))
       \<noteq> rpos (reader (dec_of [0, 0, 0] 5 True)) + remain (dec_of [0, 0, 0] 5 True)
   \<and> remain (discardAll (fst (decodeInt32 (dec_of [0, 0, 0] 5 True) VOther))) = 2"
proof -
  have d1: "fst (decodeInt32 (dec_of [0, 0, 0] 5 True) VOther)
      = (advance (dec_of [0, 0, 0] 5 True) 3)\<lparr>err := Some ErrUnexpectedEOF\<rparr>"
    by (simp add: decodeInt32_def readInt32_short avail_def trunc_error_def stop_error_def
        reader_fail_def Let_def)
  show ?thesis
    unfolding d1 by (simp add: discardAll_reader discardAll_err avail_def)
qed

section \<open>Where the drain is missed\<close>

lemma readVarInt_loop_unterminated:
  "err d = None \<Longrightarrow> n \<le> avail d \<Longrightarrow> take n (rdata (reader d)) = replicate n 0x80 \<Longrightarrow>
   readVarInt_loop n x s d = (0, setError (advance d n) (Some ErrVarInt))"
proof (induction n arbitrary: x s d)
  case 0
  then show ?case by simp
next
  case (Suc n)
  from Suc.prems(2) have av: "0 < avail d" by simp
  obtain b bs where c: "rdata (reader d) = b # bs"
    using av by (cases "rdata (reader d)") (auto simp: avail_def)
  with Suc.prems(3) have b: "b = 0x80" and t: "take n bs = replicate n 0x80" by simp_all
  have rb: "readByte d = (0x80, advance d 1)"
    using Suc.prems(1) av c b by (simp add: readByte_ok)
  have "readVarInt_loop n (x OR push_bit s (ucast ((0x80 :: byte) AND 0x7f))) (s + 7) (advance d 1)
      = (0, setError (advance (advance d 1) n) (Some ErrVarInt))"
    using Suc.prems c t by (intro Suc.IH) (auto simp: avail_def)
  with rb show ?case by (simp add: advance_advance)
qed

text \<open>
  Claim C2 says that \<^verbatim>\<open>setError\<close>, when it records an error, drains the remaining budget
  at once through \<^verbatim>\<open>discardAll\<close>. On a source without \<^verbatim>\<open>Discard\<close> the copy of
  \<^verbatim>\<open>discard\<close> reads through \<^verbatim>\<open>d.Read\<close>, which returns the error just recorded at once:
  with eight bytes of budget and eight bytes in the source, the error is recorded, the
  budget stays at eight and the cursor does not move. On a source with \<^verbatim>\<open>Discard\<close> the
  same call consumes all eight bytes. So a frame of fourteen bytes that starts with eleven
  bytes \<^verbatim>\<open>80\<close>, a varint with no last byte, leaves three bytes of the budget unread after
  \<^verbatim>\<open>readVarInt\<close> has failed, also after a further \<^verbatim>\<open>discardAll\<close>, where the source with
  \<^verbatim>\<open>Discard\<close> is at the end of the frame.
\<close>

theorem setError_fallback_no_drain:
  "setError (dec_of frame 8 False) (Some ErrVarInt) = (dec_of frame 8 False)\<lparr>err := Some ErrVarInt\<rparr>
   \<and> remain (setError (dec_of frame 8 False) (Some ErrVarInt)) = 8
   \<and> rpos (reader (setError (dec_of frame 8 False) (Some ErrVarInt))) = 0
   \<and> remain (setError (dec_of frame 8 True) (Some ErrVarInt)) = 0
   \<and> rpos (reader (setError (dec_of frame 8 True) (Some ErrVarInt))) = 8
   \<and> err (snd (readVarInt (dec_of (replicate 11 0x80 @ [1, 2, 3]) 14 False))) = Some ErrVarInt
   \<and> remain (snd (readVarInt (dec_of (replicate 11 0x80 @ [1, 2, 3]) 14 False))) = 3
   \<and> remain (discardAll (snd (readVarInt (dec_of (replicate 11 0x80 @ [1, 2, 3]) 14 False)))) = 3
   \<and> rpos (reader (discardAll (snd (readVarInt (dec_of (replicate 11 0x80 @ [1, 2, 3]) 14 False))))) = 11
   \<and> remain (snd (readVarInt (dec_of (replicate 11 0x80 @ [1, 2, 3]) 14 True))) = 0
   \<and> rpos (reader (snd (readVarInt (dec_of (replicate 11 0x80 @ [1, 2, 3]) 14 True)))) = 14"
proof -
  have r: "readVarInt (dec_of (replicate 11 0x80 @ [1, 2, 3]) 14 bulk)
     = (0, setError (advance (dec_of (replicate 11 0x80 @ [1, 2, 3]) 14 bulk) 11) (Some ErrVarInt))" for bulk
    unfolding readVarInt_def
    by (simp add: readVarInt_loop_unterminated)
  show ?thesis
    unfolding r by (simp add: setError_new discardAll_reader avail_def frame_def)
qed

text \<open>
  Claim C9 says that \<^verbatim>\<open>discard(n)\<close> skips at most \<open>min(n, remain)\<close> bytes with and without
  bulk skip. \<^verbatim>\<open>discard\<close> clamps \<open>n\<close> to \<open>remain\<close>, but only the branch with \<^verbatim>\<open>Discard\<close>
  uses it: the copy of the other branch runs until the budget or the source ends. With a
  budget of eight over eight bytes, \<^verbatim>\<open>discard(2)\<close> on a source without \<^verbatim>\<open>Discard\<close> skips
  all eight bytes; on a source with \<^verbatim>\<open>Discard\<close> it skips two.
\<close>

theorem discard_fallback_ignores_n:
  "remain (discard (dec_of frame 8 False) 2) = 0
   \<and> rpos (reader (discard (dec_of frame 8 False) 2)) = 8
   \<and> err (discard (dec_of frame 8 False) 2) = None
   \<and> remain (discard (dec_of frame 8 True) 2) = 6
   \<and> rpos (reader (discard (dec_of frame 8 True) 2)) = 2"
  by (simp add: discard_new frame_def stop_error_def)

text \<open>
  Claim C5 says that the operation compiled for a self-decoding type records the error of
  the self-decode through \<^verbatim>\<open>setError\<close>. The closure assigns \<^verbatim>\<open>d.err\<close> itself, so nothing
  is drained: when the self-decoder fails without reading, the error is recorded, the
  budget stays at eight and the cursor at zero, where \<^verbatim>\<open>setError\<close> with the same error
  consumes the eight bytes.
\<close>

theorem readerDecode_no_drain:
  "decodeFuncOf (TReaderFrom rf_fail rec_type) 1 tag_all = Some (readerDecodeFuncOf rf_fail)
   \<and> readerDecodeFuncOf rf_fail (dec_of frame 8 True) VOther
       = ((dec_of frame 8 True)\<lparr>err := Some (ErrSource 1)\<rparr>, VOther)
   \<and> remain (fst (readerDecodeFuncOf rf_fail (dec_of frame 8 True) VOther)) = 8
   \<and> rpos (reader (fst (readerDecodeFuncOf rf_fail (dec_of frame 8 True) VOther))) = 0
   \<and> remain (setError (dec_of frame 8 True) (Some (ErrSource 1))) = 0
   \<and> rpos (reader (setError (dec_of frame 8 True) (Some (ErrSource 1)))) = 8"
  by (simp add: readerDecodeFuncOf_def rf_fail_def setError_new frame_def dec_of_def avail_def)

section \<open>The schema compiler: which fields, which operations\<close>

lemma forEachStructTag_find:
  "forEachStructTag ftyp i tags version flds =
     (case find (matches version) tags of
        None \<Rightarrow> Some flds
      | Some tag \<Rightarrow>
          (case decodeFuncOf ftyp version tag of
             None \<Rightarrow> None
           | Some f \<Rightarrow> Some (flds @ [\<lparr>decode = f, index = i\<rparr>])))"
  by (induction tags) (simp_all add: matches_def)

lemma find_None_set: "(find P xs = None) = (\<not> (\<exists>x\<in>set xs. P x))"
  by (induction xs) auto

lemma find_Some_set: "find P xs = Some x \<Longrightarrow> x \<in> set xs \<and> P x"
  by (induction xs) (auto split: if_splits)

lemma forEachStructField_index:
  "forEachStructField fs i version flds = Some flds' \<Longrightarrow>
   map index flds' = map index flds @ map fst (filter (planned version) (zip [i..<i + length fs] fs))"
proof (induction fs arbitrary: i flds)
  case Nil
  then show ?case by simp
next
  case (Cons a fs)
  obtain ftyp tags where a: "a = (ftyp, tags)" by (cases a)
  from Cons.prems a obtain mid where
    m: "forEachStructTag ftyp i tags version flds = Some mid"
    and r: "forEachStructField fs (Suc i) version mid = Some flds'"
    by (auto split: option.splits)
  have u: "[i..<i + length (a # fs)] = i # [Suc i..<Suc i + length fs]"
    by (subst upt_rec) simp
  have z: "zip [i..<i + length (a # fs)] (a # fs) = (i, a) # zip [Suc i..<Suc i + length fs] fs"
    unfolding u by simp
  have mi: "map index mid = map index flds @ (if planned version (i, a) then [i] else [])"
    using m a by (auto simp: forEachStructTag_find planned_def find_None_set split: option.splits dest: find_Some_set)
  from Cons.IH [OF r] mi show ?case unfolding z by simp
qed

lemma zip_upt_filter:
  "map fst (filter (\<lambda>jf. P (snd jf)) (zip [0..<length xs] xs)) = filter (\<lambda>j. P (xs ! j)) [0..<length xs]"
proof (induction xs rule: rev_induct)
  case Nil
  then show ?case by simp
next
  case (snoc x xs)
  have "zip [0..<length (xs @ [x])] (xs @ [x]) = zip [0..<length xs] xs @ [(length xs, x)]"
    by simp
  moreover have "filter (\<lambda>j. P ((xs @ [x]) ! j)) [0..<length xs] = filter (\<lambda>j. P (xs ! j)) [0..<length xs]"
    by (rule filter_cong) (auto simp: nth_append)
  ultimately show ?case using snoc by simp
qed

lemma forEachStructField_decode:
  "forEachStructField fs i version flds = Some flds' \<Longrightarrow>
   \<exists>new. flds' = flds @ new \<and>
     (\<forall>x\<in>set new. i \<le> index x \<and> index x < i + length fs \<and>
        (\<exists>tag. find (matches version) (snd (fs ! (index x - i))) = Some tag
           \<and> decodeFuncOf (fst (fs ! (index x - i))) version tag = Some (decode x)))"
proof (induction fs arbitrary: i flds)
  case Nil
  then show ?case by simp
next
  case (Cons a fs)
  obtain ftyp tags where a: "a = (ftyp, tags)" by (cases a)
  from Cons.prems a obtain mid where
    m: "forEachStructTag ftyp i tags version flds = Some mid"
    and r: "forEachStructField fs (Suc i) version mid = Some flds'"
    by (auto split: option.splits)
  from Cons.IH [OF r] obtain new where
    n: "flds' = mid @ new"
      "\<forall>x\<in>set new. Suc i \<le> index x \<and> index x < Suc i + length fs \<and>
        (\<exists>tag. find (matches version) (snd (fs ! (index x - Suc i))) = Some tag
           \<and> decodeFuncOf (fst (fs ! (index x - Suc i))) version tag = Some (decode x))"
    by blast
  from m obtain here where
    h: "mid = flds @ here"
      "\<forall>x\<in>set here. index x = i \<and>
        (\<exists>tag. find (matches version) tags = Some tag \<and> decodeFuncOf ftyp version tag = Some (decode x))"
    by (auto simp: forEachStructTag_find split: option.splits)
  have "\<forall>x\<in>set (here @ new). i \<le> index x \<and> index x < i + length (a # fs) \<and>
        (\<exists>tag. find (matches version) (snd ((a # fs) ! (index x - i))) = Some tag
           \<and> decodeFuncOf (fst ((a # fs) ! (index x - i))) version tag = Some (decode x))"
  proof
    fix x assume "x \<in> set (here @ new)"
    then consider "x \<in> set here" | "x \<in> set new" by auto
    then show "i \<le> index x \<and> index x < i + length (a # fs) \<and>
        (\<exists>tag. find (matches version) (snd ((a # fs) ! (index x - i))) = Some tag
           \<and> decodeFuncOf (fst ((a # fs) ! (index x - i))) version tag = Some (decode x))"
    proof cases
      case 1
      with h(2) a show ?thesis by auto
    next
      case 2
      with n(2) have s: "Suc i \<le> index x" "index x < Suc i + length fs"
        and t: "\<exists>tag. find (matches version) (snd (fs ! (index x - Suc i))) = Some tag
           \<and> decodeFuncOf (fst (fs ! (index x - Suc i))) version tag = Some (decode x)"
        by auto
      from s have "index x - i = Suc (index x - Suc i)" by arith
      then have "(a # fs) ! (index x - i) = fs ! (index x - Suc i)" by simp
      with s t show ?thesis by auto
    qed
  qed
  with n(1) h(1) show ?case by (intro exI [where x = "here @ new"]) simp
qed

lemma structDecode_untouched:
  "j \<notin> index ` set flds \<Longrightarrow> fieldByIndex (snd (structDecode flds d v)) j = fieldByIndex v j"
proof (induction flds arbitrary: d v)
  case Nil
  then show ?case by simp
next
  case (Cons f flds)
  obtain d' x where r: "decode f d (fieldByIndex v (index f)) = (d', x)"
    by (cases "decode f d (fieldByIndex v (index f))") auto
  from Cons.prems have ne: "index f \<noteq> j" and rest: "j \<notin> index ` set flds" by auto
  have "fieldByIndex (setFieldByIndex v (index f) x) j = fieldByIndex v j"
    using ne by (cases v) (auto simp: fieldByIndex_def setFieldByIndex_def)
  with Cons.IH [OF rest, of d' "setFieldByIndex v (index f) x"] r show ?case by simp
qed

text \<open>
  Claim C3. For every record type and every version, the plan compiled by
  \<^verbatim>\<open>structDecodeFuncOf\<close> holds exactly the fields that have a tag interval containing the
  version, in declared order, each once; the operation of a field is the one resolved for
  its first matching interval; and running the plan never writes the destination of a
  field that is not in it.
\<close>

theorem plan_fields:
  assumes "structDecodeFuncOf (TStruct fs) version = Some f"
  shows "\<exists>flds. forEachStructField fs 0 version [] = Some flds \<and> f = structDecode flds
     \<and> map index flds = filter (\<lambda>j. \<exists>tag\<in>set (snd (fs ! j)). matches version tag) [0..<length fs]
     \<and> (\<forall>x\<in>set flds. \<exists>tag. find (matches version) (snd (fs ! index x)) = Some tag
           \<and> decodeFuncOf (fst (fs ! index x)) version tag = Some (decode x))
     \<and> (\<forall>j d v. \<not> (j < length fs \<and> (\<exists>tag\<in>set (snd (fs ! j)). matches version tag)) \<longrightarrow>
           fieldByIndex (snd (f d v)) j = fieldByIndex v j)"
proof -
  from assms obtain flds where c: "forEachStructField fs 0 version [] = Some flds" and f: "f = structDecode flds"
    by (auto simp: structDecodeFuncOf.simps split: option.splits)
  have "map index flds = map fst (filter (planned version) (zip [0..<length fs] fs))"
    using forEachStructField_index [OF c] by simp
  also have "\<dots> = map fst (filter (\<lambda>jf. (\<exists>tag\<in>set (snd (snd jf)). matches version tag)) (zip [0..<length fs] fs))"
    by (simp add: planned_def [abs_def])
  also have "\<dots> = filter (\<lambda>j. \<exists>tag\<in>set (snd (fs ! j)). matches version tag) [0..<length fs]"
    by (rule zip_upt_filter [where P = "\<lambda>x. \<exists>tag\<in>set (snd x). matches version tag"])
  finally have i: "map index flds = filter (\<lambda>j. \<exists>tag\<in>set (snd (fs ! j)). matches version tag) [0..<length fs]" .
  from forEachStructField_decode [OF c]
  have d: "\<forall>x\<in>set flds. \<exists>tag. find (matches version) (snd (fs ! index x)) = Some tag
           \<and> decodeFuncOf (fst (fs ! index x)) version tag = Some (decode x)"
    by auto
  have u: "fieldByIndex (snd (f d v)) j = fieldByIndex v j"
    if "\<not> (j < length fs \<and> (\<exists>tag\<in>set (snd (fs ! j)). matches version tag))" for j d v
  proof -
    have "set (map index flds) = {j. j < length fs \<and> (\<exists>tag\<in>set (snd (fs ! j)). matches version tag)}"
      unfolding i by auto
    with that have "j \<notin> index ` set flds" by auto
    then show ?thesis unfolding f by (rule structDecode_untouched)
  qed
  from c f i d u show ?thesis by blast
qed

lemma ver_plan_compiled: "structDecodeFuncOf (TStruct ver_fields) 1 = Some (structDecode ver_plan)"
  by (simp add: structDecodeFuncOf.simps ver_fields_def ver_plan_def tag_all_def tag_old_def tag_new_def
      numeral_2_eq_2)

theorem plan_fields_witness:
  "structDecodeFuncOf (TStruct ver_fields) 1 = Some (structDecode ver_plan)
   \<and> map index ver_plan = [0, 2]
   \<and> filter (\<lambda>j. \<exists>tag\<in>set (snd (ver_fields ! j)). matches 1 tag) [0..<length ver_fields] = [0, 2]
   \<and> fieldByIndex (snd (structDecode ver_plan (dec_of frame 8 True) (VStruct [VInt32 7, VString [1], VBool False]))) 1
       = VString [1]"
proof -
  have m: "\<not> (1 < length ver_fields \<and> (\<exists>tag\<in>set (snd (ver_fields ! 1)). matches 1 tag))"
    by (simp add: ver_fields_def matches_def tag_new_def)
  have v: "fieldByIndex (VStruct [VInt32 7, VString [1], VBool False]) 1 = VString [1]"
    by (simp add: fieldByIndex_def)
  have i: "map index ver_plan = [0, 2]" by (simp add: ver_plan_def)
  from plan_fields [OF ver_plan_compiled] obtain flds where
    f: "structDecode ver_plan = structDecode flds"
      "map index flds = filter (\<lambda>j. \<exists>tag\<in>set (snd (ver_fields ! j)). matches 1 tag) [0..<length ver_fields]"
      "forEachStructField ver_fields 0 1 [] = Some flds"
    and u: "\<forall>j d v. \<not> (j < length ver_fields \<and> (\<exists>tag\<in>set (snd (ver_fields ! j)). matches 1 tag)) \<longrightarrow>
           fieldByIndex (snd (structDecode ver_plan d v) ) j = fieldByIndex v j"
    by blast
  have "flds = ver_plan"
    using f(3) by (simp add: ver_fields_def ver_plan_def tag_all_def tag_old_def tag_new_def numeral_2_eq_2)
  with f(2) i have "filter (\<lambda>j. \<exists>tag\<in>set (snd (ver_fields ! j)). matches 1 tag) [0..<length ver_fields] = [0, 2]"
    by simp
  moreover from u m v
  have "fieldByIndex (snd (structDecode ver_plan (dec_of frame 8 True) (VStruct [VInt32 7, VString [1], VBool False]))) 1
       = VString [1]"
    by metis
  ultimately show ?thesis using ver_plan_compiled i by simp
qed

text \<open>
  Claim C4, as amended. For every field matched into a plan the operation is the one
  \<^verbatim>\<open>decodeFuncOf\<close> resolves for the field's type, the version and the matched tag: the
  primitive decoder for a primitive kind; the fixed-form string decoder for a string and
  the fixed-form byte-array decoder for \<^verbatim>\<open>[]byte\<close>, whatever the encoding hint of the tag;
  the compiled plan for a record; the array decoder over the element's operation for any
  other slice; and for a type that decodes itself the escape-hatch operation, whatever its
  structure.
\<close>

theorem decodeFuncOf_kinds:
  "decodeFuncOf TBool version tag = Some decodeBool
   \<and> decodeFuncOf TInt8 version tag = Some decodeInt8
   \<and> decodeFuncOf TInt16 version tag = Some decodeInt16
   \<and> decodeFuncOf TInt32 version tag = Some decodeInt32
   \<and> decodeFuncOf TInt64 version tag = Some decodeInt64
   \<and> decodeFuncOf TString version tag = Some decodeString
   \<and> (kindUint8 t \<longrightarrow> decodeFuncOf (TSlice t) version tag = Some decodeBytes)
   \<and> (\<not> kindUint8 t \<longrightarrow>
        decodeFuncOf (TSlice t) version tag =
          (case decodeFuncOf t version tag of
             None \<Rightarrow> None
           | Some elemFunc \<Rightarrow> Some (\<lambda>d v. decodeArray d v t elemFunc)))
   \<and> decodeFuncOf (TStruct fs) version tag =
        (case forEachStructField fs 0 version [] of
           None \<Rightarrow> None
         | Some flds \<Rightarrow> Some (structDecode flds))
   \<and> decodeFuncOf (TReaderFrom rf t) version tag = Some (readerDecodeFuncOf rf)
   \<and> (\<forall>tag' i tags flds. find (matches version) tags = Some tag' \<longrightarrow>
        forEachStructTag t i tags version flds =
          (case decodeFuncOf t version tag' of
             None \<Rightarrow> None
           | Some g \<Rightarrow> Some (flds @ [\<lparr>decode = g, index = i\<rparr>])))"
  by (simp add: stringDecodeFuncOf_def bytesDecodeFuncOf_def structDecodeFuncOf.simps
      arrayDecodeFuncOf.simps forEachStructTag_find)

theorem decodeFuncOf_kinds_witness:
  "kindUint8 TUint8 \<and> decodeFuncOf (TSlice TUint8) 1 tag_compact = Some decodeBytes
   \<and> \<not> kindUint8 TInt32
   \<and> decodeFuncOf (TSlice TInt32) 1 tag_all = Some (\<lambda>d v. decodeArray d v TInt32 decodeInt32)
   \<and> find (matches 1) [tag_new, tag_old] = Some tag_old
   \<and> forEachStructTag TString 4 [tag_new, tag_old] 1 [] = Some [\<lparr>decode = decodeString, index = 4\<rparr>]"
proof -
  have f: "find (matches 1) [tag_new, tag_old] = Some tag_old"
    by (simp add: matches_def tag_new_def tag_old_def)
  from decodeFuncOf_kinds [of 1 tag_compact TUint8 "[]" undefined]
  have a: "decodeFuncOf (TSlice TUint8) 1 tag_compact = Some decodeBytes" by simp
  from decodeFuncOf_kinds [of 1 tag_all TInt32 "[]" undefined]
  have b: "decodeFuncOf (TSlice TInt32) 1 tag_all = Some (\<lambda>d v. decodeArray d v TInt32 decodeInt32)"
    by simp
  from decodeFuncOf_kinds [of 1 tag_all TString "[]" undefined]
  have "\<forall>tag' i tags flds. find (matches 1) tags = Some tag' \<longrightarrow>
        forEachStructTag TString i tags 1 flds =
          (case decodeFuncOf TString 1 tag' of
             None \<Rightarrow> None
           | Some g \<Rightarrow> Some (flds @ [\<lparr>decode = g, index = i\<rparr>]))"
    by blast
  from this [rule_format, OF f, of 4 "[]"]
  have c: "forEachStructTag TString 4 [tag_new, tag_old] 1 [] = Some [\<lparr>decode = decodeString, index = 4\<rparr>]"
    by (simp add: stringDecodeFuncOf_def)
  from a b c f show ?thesis by simp
qed

text \<open>
  Claim C4 as stated fails for the encoding hint: with a tag whose hint is compact the
  compiler still selects the fixed-form decoders. On the compact encoding of \<^verbatim>\<open>"ok"\<close>
  (\<^verbatim>\<open>04 'o' 'k'\<close>) the compact reader gives \<^verbatim>\<open>"ok"\<close>; the selected operation reads
  \<^verbatim>\<open>04 6F\<close> as the length 1135, runs out of input and writes \<^verbatim>\<open>"k"\<close>.
\<close>

theorem compact_hint_ignored_counterexample:
  "Compact tag_compact
   \<and> decodeFuncOf TString 1 tag_compact = Some decodeString
   \<and> decodeFuncOf (TSlice TUint8) 1 tag_compact = Some decodeBytes
   \<and> readCompactString (dec_of [4, 0x6F, 0x6B] 3 True) = ([0x6F, 0x6B], advance (dec_of [4, 0x6F, 0x6B] 3 True) 3)
   \<and> decodeString (dec_of [4, 0x6F, 0x6B] 3 True) VOther
       = ((advance (dec_of [4, 0x6F, 0x6B] 3 True) 3)\<lparr>err := Some ErrUnexpectedEOF\<rparr>, VString [0x6B])"
proof -
  have v: "readVarInt (dec_of [4, 0x6F, 0x6B] 3 True) = (2, advance (dec_of [4, 0x6F, 0x6B] 3 True) 1)"
    by (simp add: readVarInt_def numeral_3_eq_3 readByte_ok unzigzag_def)
  have c: "readCompactString (dec_of [4, 0x6F, 0x6B] 3 True)
      = ([0x6F, 0x6B], advance (dec_of [4, 0x6F, 0x6B] 3 True) 3)"
    by (simp add: readCompactString_def v read_ok avail_def advance_advance bytesToString_def)
  have b: "(bigEndian [4, 0x6F] :: 16 word) = 1135" by (simp add: bigEndian_def)
  have s: "decodeString (dec_of [4, 0x6F, 0x6B] 3 True) VOther
       = ((advance (dec_of [4, 0x6F, 0x6B] 3 True) 3)\<lparr>err := Some ErrUnexpectedEOF\<rparr>, VString [0x6B])"
    by (simp add: decodeString_def readString_def readInt16_ok b read_short avail_def advance_advance
        bytesToString_def setString_def trunc_error_def stop_error_def Let_def)
  show ?thesis
    using c s by (simp add: tag_compact_def stringDecodeFuncOf_def bytesDecodeFuncOf_def)
qed

section \<open>The array decoder\<close>

lemma decodeArray_loop_elems:
  "decodeArray_loop f d (pre @ replicate m z) (length pre) (length pre + m) =
     (case decodeElems f z d m of (d', xs) \<Rightarrow> (d', pre @ xs))"
proof (induction m arbitrary: d pre)
  case 0
  show ?case by (subst decodeArray_loop.simps) simp
next
  case (Suc m)
  show ?case
  proof (cases "remain d = 0")
    case True
    then show ?thesis by (subst decodeArray_loop.simps) simp
  next
    case False
    obtain d' x where r: "f d z = (d', x)" by (cases "f d z") auto
    have nth: "(pre @ replicate (Suc m) z) ! length pre = z" by simp
    have upd: "(pre @ replicate (Suc m) z)[length pre := x] = (pre @ [x]) @ replicate m z"
      by (simp add: list_update_append)
    have "decodeArray_loop f d (pre @ replicate (Suc m) z) (length pre) (length pre + Suc m)
        = decodeArray_loop f d' ((pre @ [x]) @ replicate m z) (length (pre @ [x])) (length (pre @ [x]) + m)"
      using False r nth upd by (subst decodeArray_loop.simps) simp
    also have "\<dots> = (case decodeElems f z d' m of (d'', xs) \<Rightarrow> (d'', (pre @ [x]) @ xs))"
      by (rule Suc.IH)
    finally show ?thesis using False r by (simp split: prod.splits)
  qed
qed

lemma decodeElems_length: "length (snd (decodeElems f z d m)) = m"
proof (induction m arbitrary: d)
  case 0
  show ?case by simp
next
  case (Suc m)
  obtain d' x where r: "f d z = (d', x)" by (cases "f d z") auto
  obtain d'' xs where e: "decodeElems f z d' m = (d'', xs)" by (cases "decodeElems f z d' m") auto
  from Suc [of d'] e have "length xs = m" by simp
  with r e show ?case by simp
qed

lemma decodeElems_tail:
  "\<exists>k\<le>m. drop k (snd (decodeElems f z d m)) = replicate (m - k) z
        \<and> (k < m \<longrightarrow> remain (fst (decodeElems f z d m)) = 0)"
proof (induction m arbitrary: d)
  case 0
  show ?case by simp
next
  case (Suc m)
  show ?case
  proof (cases "remain d = 0")
    case True
    then show ?thesis by (intro exI [where x = 0]) simp
  next
    case False
    obtain d' x where r: "f d z = (d', x)" by (cases "f d z") auto
    from Suc.IH [of d'] obtain k where k: "k \<le> m"
      "drop k (snd (decodeElems f z d' m)) = replicate (m - k) z"
      "k < m \<longrightarrow> remain (fst (decodeElems f z d' m)) = 0"
      by blast
    obtain d'' xs where e: "decodeElems f z d' m = (d'', xs)" by (cases "decodeElems f z d' m") auto
    show ?thesis
      using False r k e by (intro exI [where x = "Suc k"]) simp
  qed
qed

text \<open>
  Claim C8. A negative 32-bit element count gives the empty array, with no element
  allocated. A count \<open>n \<ge> 0\<close> gives an array of \<open>n\<close> elements that were decoded one at a time
  in index order, up to the point where the budget reached zero: from some \<open>k\<close> on the
  elements are the default value, and if \<open>k < n\<close> the budget is zero. The array decoder
  raises no error of its own: when the budget is zero right after the count, the decoder
  is returned as the count left it and all \<open>n\<close> elements are default.
\<close>

theorem decodeArray_count:
  assumes "readInt32 d = (n, d1)"
  shows "(sint n < 0 \<longrightarrow> decodeArray d v elemType decodeElem = (d1, VArray []))
     \<and> (0 \<le> sint n \<longrightarrow>
          (\<exists>d' a k. decodeElems decodeElem (zero elemType) d1 (nat (sint n)) = (d', a)
             \<and> decodeArray d v elemType decodeElem = (d', VArray a)
             \<and> length a = nat (sint n) \<and> k \<le> nat (sint n)
             \<and> drop k a = replicate (nat (sint n) - k) (zero elemType)
             \<and> (k < nat (sint n) \<longrightarrow> remain d' = 0))
          \<and> (remain d1 = 0 \<longrightarrow>
                decodeArray d v elemType decodeElem = (d1, VArray (replicate (nat (sint n)) (zero elemType)))))"
proof (intro conjI impI)
  assume "sint n < 0"
  with assms show "decodeArray d v elemType decodeElem = (d1, VArray [])"
    by (simp add: decodeArray_def setArray_def)
next
  assume nn: "0 \<le> sint n"
  define N where "N = nat (sint n)"
  obtain d' a where e: "decodeElems decodeElem (zero elemType) d1 N = (d', a)"
    by (cases "decodeElems decodeElem (zero elemType) d1 N") auto
  have l: "decodeArray_loop decodeElem d1 (makeArray elemType N) 0 N = (d', a)"
    using decodeArray_loop_elems [of decodeElem d1 "[]" N "zero elemType"] e
    by (simp add: makeArray_def)
  have da: "decodeArray d v elemType decodeElem = (d', VArray a)"
    using assms nn l by (simp add: decodeArray_def setArray_def N_def)
  from decodeElems_length [of decodeElem "zero elemType" d1 N] e have len: "length a = N" by simp
  from decodeElems_tail [of N decodeElem "zero elemType" d1] e obtain k where
    k: "k \<le> N" "drop k a = replicate (N - k) (zero elemType)" "k < N \<longrightarrow> remain d' = 0"
    by auto
  from e da len k
  show "\<exists>d' a k. decodeElems decodeElem (zero elemType) d1 (nat (sint n)) = (d', a)
             \<and> decodeArray d v elemType decodeElem = (d', VArray a)
             \<and> length a = nat (sint n) \<and> k \<le> nat (sint n)
             \<and> drop k a = replicate (nat (sint n) - k) (zero elemType)
             \<and> (k < nat (sint n) \<longrightarrow> remain d' = 0)"
    unfolding N_def by blast
  assume z: "remain d1 = 0"
  have "decodeElems decodeElem (zero elemType) d1 N = (d1, replicate N (zero elemType))"
    using z by (cases N) simp_all
  with e da show "decodeArray d v elemType decodeElem = (d1, VArray (replicate (nat (sint n)) (zero elemType)))"
    by (simp add: N_def)
qed

theorem decodeArray_count_witness:
  "decodeArray (dec_of [0xFF, 0xFF, 0xFF, 0xFF, 0, 1] 6 True) VOther TInt16 decodeInt16
     = (advance (dec_of [0xFF, 0xFF, 0xFF, 0xFF, 0, 1] 6 True) 4, VArray [])
   \<and> decodeArray (dec_of [0, 0, 0, 3, 0, 1, 0, 2] 8 True) VOther TInt16 decodeInt16
     = (advance (dec_of [0, 0, 0, 3, 0, 1, 0, 2] 8 True) 8, VArray [VInt16 1, VInt16 2, VInt16 0])
   \<and> err (advance (dec_of [0, 0, 0, 3, 0, 1, 0, 2] 8 True) 8) = None
   \<and> decodeArray (dec_of [0, 0, 0, 3] 4 True) VOther TInt16 decodeInt16
     = (advance (dec_of [0, 0, 0, 3] 4 True) 4, VArray [VInt16 0, VInt16 0, VInt16 0])"
proof -
  have b1: "(bigEndian [0xFF, 0xFF, 0xFF, 0xFF] :: 32 word) = -1" by (simp add: bigEndian_def)
  have b2: "(bigEndian [0, 0, 0, 3] :: 32 word) = 3" by (simp add: bigEndian_def)
  have b3: "(bigEndian [0, 1] :: 16 word) = 1" "(bigEndian [0, 2] :: 16 word) = 2"
    by (simp_all add: bigEndian_def)
  have r1: "readInt32 (dec_of [0xFF, 0xFF, 0xFF, 0xFF, 0, 1] 6 True)
      = (-1, advance (dec_of [0xFF, 0xFF, 0xFF, 0xFF, 0, 1] 6 True) 4)"
    by (simp add: readInt32_ok b1)
  have r2: "readInt32 (dec_of [0, 0, 0, 3, 0, 1, 0, 2] 8 True)
      = (3, advance (dec_of [0, 0, 0, 3, 0, 1, 0, 2] 8 True) 4)"
    by (simp add: readInt32_ok b2)
  have r3: "readInt32 (dec_of [0, 0, 0, 3] 4 True) = (3, advance (dec_of [0, 0, 0, 3] 4 True) 4)"
    by (simp add: readInt32_ok b2)
  have e2: "decodeElems decodeInt16 (VInt16 0) (advance (dec_of [0, 0, 0, 3, 0, 1, 0, 2] 8 True) 4) 3
      = (advance (dec_of [0, 0, 0, 3, 0, 1, 0, 2] 8 True) 8, [VInt16 1, VInt16 2, VInt16 0])"
    by (simp add: numeral_3_eq_3 decodeInt16_def readInt16_ok avail_def b3 setInt16_def advance_advance)
  from decodeArray_count [OF r1, of VOther TInt16 decodeInt16]
  have c1: "decodeArray (dec_of [0xFF, 0xFF, 0xFF, 0xFF, 0, 1] 6 True) VOther TInt16 decodeInt16
     = (advance (dec_of [0xFF, 0xFF, 0xFF, 0xFF, 0, 1] 6 True) 4, VArray [])"
    by simp
  from decodeArray_count [OF r2, of VOther TInt16 decodeInt16] e2
  have c2: "decodeArray (dec_of [0, 0, 0, 3, 0, 1, 0, 2] 8 True) VOther TInt16 decodeInt16
     = (advance (dec_of [0, 0, 0, 3, 0, 1, 0, 2] 8 True) 8, VArray [VInt16 1, VInt16 2, VInt16 0])"
    by auto
  from decodeArray_count [OF r3, of VOther TInt16 decodeInt16]
  have c3: "decodeArray (dec_of [0, 0, 0, 3] 4 True) VOther TInt16 decodeInt16
     = (advance (dec_of [0, 0, 0, 3] 4 True) 4, VArray [VInt16 0, VInt16 0, VInt16 0])"
    by (simp add: numeral_3_eq_3)
  from c1 c2 c3 show ?thesis by simp
qed

section \<open>The zigzag varint round trip\<close>

declare varint.simps [simp del]

lemma group_join: "take_bit 7 u OR push_bit 7 (drop_bit 7 u) = (u :: 64 word)"
  by (rule bit_eqI) (auto simp: bit_simps; metis add_diff_inverse_nat)

lemma small_take: "u < 0x80 \<Longrightarrow> take_bit 7 u = (u :: 64 word)"
  using less_mask_eq [of u 7] by (simp add: take_bit_eq_mask)

lemma low_byte_final: "u < 0x80 \<Longrightarrow> ucast (ucast u :: byte) = (u :: 64 word)"
proof -
  assume "u < 0x80"
  then have t: "take_bit 7 u = u" by (rule small_take)
  have "ucast (ucast (take_bit 7 u) :: byte) = take_bit 7 u"
    by (rule bit_eqI) (auto simp: bit_simps)
  with t show ?thesis by simp
qed

lemma flag_clear: "(ucast (take_bit k (u :: 64 word)) :: byte) AND push_bit k 1 = 0"
  by (rule bit_eqI) (auto simp: bit_simps)

lemma low_byte_final_flag: "u < 0x80 \<Longrightarrow> (ucast (u :: 64 word) :: byte) AND 0x80 = 0"
  using flag_clear [of 7 u] small_take [of u] by simp

lemma low_byte_more_flag: "((ucast (u :: 64 word) :: byte) OR 0x80) AND 0x80 \<noteq> 0"
  by simp

lemma payload: "k < 8 \<Longrightarrow> (ucast (((ucast (u :: 64 word) :: byte) OR push_bit k 1) AND mask k) :: 64 word) = take_bit k u"
  by (rule bit_eqI) (auto simp: bit_simps)

lemma low_byte_more: "(ucast (((ucast (u :: 64 word) :: byte) OR 0x80) AND 0x7f) :: 64 word) = take_bit 7 u"
  using payload [of 7 u] by (simp add: mask_eq_exp_minus_1)

lemma sign_word: "signed_drop_bit 63 v = (if bit v 63 then - 1 else (0 :: 64 word))"
  by (rule bit_eqI) (auto simp: bit_simps not_le)

lemma zigzag_low: "zigzag v AND 1 = (if bit v 63 then 1 else 0)"
  unfolding zigzag_def sign_word
  by (rule bit_eqI) (simp only: bit_simps, auto simp: bit_simps)

lemma unzig_neg:
  "(\<forall>n. 64 - j \<le> n \<and> n < 64 \<longrightarrow> bit v n) \<Longrightarrow> drop_bit j (push_bit j v XOR - 1) XOR - 1 = (v :: 64 word)"
  by (rule bit_eqI) (auto simp: bit_simps)

lemma unzig_pos:
  "(\<forall>n. 64 - j \<le> n \<and> n < 64 \<longrightarrow> \<not> bit v n) \<Longrightarrow> drop_bit j (push_bit j v) = (v :: 64 word)"
proof (rule bit_eqI)
  fix n
  assume a: "\<forall>n. 64 - j \<le> n \<and> n < 64 \<longrightarrow> \<not> bit v n" and p: "possible_bit TYPE(64 word) n"
  then have n: "n < 64" by (simp add: possible_bit_word)
  show "bit (drop_bit j (push_bit j v)) n = bit v n"
  proof (cases "j + n < 64")
    case True
    then show ?thesis by (auto simp: bit_simps)
  next
    case False
    with n have "64 - j \<le> n" by arith
    with a n have "\<not> bit v n" by blast
    with False show ?thesis by (auto simp: bit_simps)
  qed
qed

lemma unzigzag_zigzag: "unzigzag (zigzag v) = v"
proof (cases "bit v 63")
  case True
  then have "\<forall>n. 64 - 1 \<le> n \<and> n < 64 \<longrightarrow> bit v n"
    by (auto simp: le_less)
  from unzig_neg [OF this]
  have "drop_bit 1 (push_bit 1 v XOR - 1) XOR - 1 = v" .
  with True show ?thesis by (simp add: unzigzag_def zigzag_low) (simp add: zigzag_def sign_word)
next
  case False
  then have "\<forall>n. 64 - 1 \<le> n \<and> n < 64 \<longrightarrow> \<not> bit v n"
    by (auto simp: le_less)
  from unzig_pos [OF this]
  have "drop_bit 1 (push_bit 1 v) = v" .
  with False show ?thesis by (simp add: unzigzag_def zigzag_low) (simp add: zigzag_def sign_word)
qed

lemma varint_length_aux: "unat u < 2 ^ (7 * k) \<Longrightarrow> 0 < k \<Longrightarrow> length (varint u) \<le> k"
proof (induction u arbitrary: k rule: varint.induct)
  case (1 u)
  show ?case
  proof (cases "u < 0x80")
    case True
    with 1(3) show ?thesis by (subst varint.simps) simp
  next
    case False
    then have big: "128 \<le> unat u" by (simp add: word_less_nat_alt not_less)
    obtain k' where k: "k = Suc k'" using 1(3) by (cases k) auto
    have "0 < k'"
    proof (rule ccontr)
      assume "\<not> 0 < k'"
      with k 1(2) have "unat u < 128" by simp
      with big show False by simp
    qed
    moreover have "unat (drop_bit 7 u) < 2 ^ (7 * k')"
    proof -
      have "unat u < 2 ^ 7 * 2 ^ (7 * k')" using 1(2) k by (simp add: power_add)
      then have "unat u div 2 ^ 7 < 2 ^ (7 * k')"
        by (simp add: less_mult_imp_div_less mult.commute)
      then show ?thesis by (simp add: drop_bit_eq_div unat_div)
    qed
    ultimately have "length (varint (drop_bit 7 u)) \<le> k'"
      using 1(1) [OF False] by simp
    with False k show ?thesis by (subst varint.simps) simp
  qed
qed

lemma varint_length: "length (varint u) \<le> 10"
proof -
  have "unat u < 2 ^ 64" using unsigned_less [of u, where ?'a = nat] by simp
  also have "(2 :: nat) ^ 64 \<le> 2 ^ (7 * 10)" by simp
  finally show ?thesis by (rule varint_length_aux) simp
qed

lemma varint_nonempty: "0 < length (varint u)"
  by (subst varint.simps) simp

lemma regroup:
  "(x OR push_bit s (take_bit 7 u)) OR push_bit (s + 7) (drop_bit 7 u) = x OR push_bit s (u :: 64 word)"
proof -
  have "push_bit s u = push_bit s (take_bit 7 u OR push_bit 7 (drop_bit 7 u))"
    by (simp only: group_join)
  also have "\<dots> = push_bit s (take_bit 7 u) OR push_bit (s + 7) (drop_bit 7 u)"
    by (simp only: push_bit_or push_bit_push_bit)
  finally show ?thesis by (simp only: or.assoc)
qed

lemma readVarInt_loop_varint:
  "err d = None \<Longrightarrow> rdata (reader d) = varint u @ rest \<Longrightarrow> length (varint u) \<le> remain d \<Longrightarrow>
   length (varint u) \<le> n \<Longrightarrow>
   readVarInt_loop n x s d = (unzigzag (x OR push_bit s u), advance d (length (varint u)))"
proof (induction u arbitrary: n x s d rule: varint.induct)
  case (1 u)
  from 1(5) varint_nonempty [of u] obtain m where n: "n = Suc m" by (cases n) auto
  have "0 < remain d" using 1(4) varint_nonempty [of u] by linarith
  moreover have "0 < length (rdata (reader d))"
    unfolding 1(3) using varint_nonempty [of u] by (simp del: length_greater_0_conv)
  ultimately have av: "0 < avail d" by (simp add: avail_def)
  show ?case
  proof (cases "u < 0x80")
    case True
    then have v: "varint u = [ucast u]" by (subst varint.simps) simp
    have rb: "readByte d = (ucast u, advance d 1)"
      using 1(2,3) av v by (simp add: readByte_ok)
    show ?thesis
      unfolding n using rb True v by (simp add: low_byte_final_flag low_byte_final)
  next
    case False
    then have v: "varint u = (ucast u OR 0x80) # varint (drop_bit 7 u)" by (subst varint.simps) simp
    have rb: "readByte d = (ucast u OR 0x80, advance d 1)"
      using 1(2,3) av v by (simp add: readByte_ok)
    have ih: "readVarInt_loop m (x OR push_bit s (take_bit 7 u)) (s + 7) (advance d 1)
        = (unzigzag ((x OR push_bit s (take_bit 7 u)) OR push_bit (s + 7) (drop_bit 7 u)),
           advance (advance d 1) (length (varint (drop_bit 7 u))))"
      using 1(2,3,4,5) v n by (intro 1(1) [OF False]) simp_all
    have "readVarInt_loop n x s d = readVarInt_loop m (x OR push_bit s (take_bit 7 u)) (s + 7) (advance d 1)"
      unfolding n using rb by (simp add: low_byte_more del: readVarInt_loop.simps(2))
        (simp add: readVarInt_loop.simps(2) rb low_byte_more)
    with ih show ?thesis by (simp add: regroup advance_advance v)
  qed
qed

text \<open>
  Claim C6. For every signed 64-bit value \<open>v\<close>, decoding the zigzag varint encoding of \<open>v\<close>
  gives \<open>v\<close> back and consumes exactly the bytes of the encoding, which are at most 10 (so
  within the 11 the decoder allows); the decoder computes the result from the accumulated
  unsigned value \<open>x\<close> as \<^verbatim>\<open>(x >> 1) XOR -(x & 1)\<close>. The values 0, -1, 1, -2, 2, 63, -64,
  1000000 and -1000000 are among them.
\<close>

theorem varint_roundtrip:
  assumes "err d = None" and "rdata (reader d) = writeVarInt v @ rest"
    and "length (writeVarInt v) \<le> remain d"
  shows "readVarInt d = (v, advance d (length (writeVarInt v)))
     \<and> length (writeVarInt v) \<le> 10
     \<and> v = drop_bit 1 (zigzag v) XOR - (zigzag v AND 1)"
proof -
  have l: "length (varint (zigzag v)) \<le> 10" by (rule varint_length)
  then have n: "length (varint (zigzag v)) \<le> (if 11 > remain d then remain d else 11)"
    using assms(3) by (simp add: writeVarInt_def)
  have "readVarInt d = (unzigzag (0 OR push_bit 0 (zigzag v)), advance d (length (varint (zigzag v))))"
    unfolding readVarInt_def
    using assms by (intro readVarInt_loop_varint [OF _ _ _ n]) (simp_all add: writeVarInt_def)
  moreover have "unzigzag (zigzag v) = drop_bit 1 (zigzag v) XOR - (zigzag v AND 1)"
    by (simp add: unzigzag_def)
  ultimately show ?thesis using l by (simp add: unzigzag_zigzag writeVarInt_def)
qed

theorem varint_roundtrip_witness:
  "map writeVarInt [0, - 1, 1, - 2, 2, 63, - 64, 1000000, - 1000000]
     = [[0], [1], [2], [3], [4], [0x7E], [0x7F], [0x80, 0x89, 0x7A], [0xFF, 0x88, 0x7A]]
   \<and> map (\<lambda>v. fst (readVarInt (dec_of (writeVarInt v) 11 False)))
         [0, - 1, 1, - 2, 2, 63, - 64, 1000000, - 1000000]
     = [0, - 1, 1, - 2, 2, 63, - 64, 1000000, - 1000000]
   \<and> readVarInt (dec_of [0xFF, 0x88, 0x7A, 0x05] 4 True)
     = (- 1000000, advance (dec_of [0xFF, 0x88, 0x7A, 0x05] 4 True) 3)"
proof -
  have enc: "map writeVarInt [0, - 1, 1, - 2, 2, 63, - 64, 1000000, - 1000000]
     = [[0], [1], [2], [3], [4], [0x7E], [0x7F], [0x80, 0x89, 0x7A], [0xFF, 0x88, 0x7A]]"
    by code_simp
  have len: "length (writeVarInt v) \<le> 11" for v
    using varint_length [of "zigzag v"] by (simp add: writeVarInt_def)
  have r: "fst (readVarInt (dec_of (writeVarInt v) 11 False)) = v" for v
    using varint_roundtrip [of "dec_of (writeVarInt v) 11 False" v "[]"] len [of v] by simp
  have e: "writeVarInt (- 1000000) = [0xFF, 0x88, 0x7A]" using enc by simp
  have c: "readVarInt (dec_of [0xFF, 0x88, 0x7A, 0x05] 4 True)
     = (- 1000000, advance (dec_of [0xFF, 0x88, 0x7A, 0x05] 4 True) 3)"
    using varint_roundtrip [of "dec_of [0xFF, 0x88, 0x7A, 0x05] 4 True" "- 1000000" "[0x05]"]
    by (simp add: e)
  from enc r c show ?thesis by simp
qed

end
